theory Spec2Isabelle
  imports Main "HOL-Library.Word"
begin

section \<open>The string pool of main_simple.cpp\<close>

text \<open>
  \<^verbatim>\<open>SimpleStringPool\<close> holds a byte buffer \<^verbatim>\<open>std::string data\<close> and a
  \<^verbatim>\<open>std::map<std::string, uint32_t> offsets\<close>.  Bytes are \<^typ>\<open>char\<close>, the buffer is a
  \<^typ>\<open>string\<close>, the map is a partial function, and an offset is a 32-bit word: the
  assignment \<^verbatim>\<open>uint32_t offset = data.size()\<close> narrows a \<^verbatim>\<open>size_t\<close>.
\<close>

abbreviation NUL :: char where
  "NUL \<equiv> CHR 0x00"

abbreviation LF :: char where
  "LF \<equiv> CHR 0x0A"

record SimpleStringPool =
  data :: string
  offsets :: "string \<rightharpoonup> 32 word"

definition empty_pool :: SimpleStringPool where
  "empty_pool = \<lparr>data = [], offsets = Map.empty\<rparr>"

text \<open>\<^verbatim>\<open>add\<close> returns the offset and, as second component, the pool after the call.\<close>

definition add :: "string \<Rightarrow> SimpleStringPool \<Rightarrow> 32 word \<times> SimpleStringPool" where
  "add str p =
     (case offsets p str of
        Some off \<Rightarrow> (off, p)
      | None \<Rightarrow>
          (let offset = (word_of_nat (length (data p)) :: 32 word)
           in (offset, \<lparr>data = data p @ str @ [NUL],
                        offsets = (offsets p)(str \<mapsto> offset)\<rparr>)))"

definition getData :: "SimpleStringPool \<Rightarrow> string" where
  "getData p = data p"

definition getSize :: "SimpleStringPool \<Rightarrow> 32 word" where
  "getSize p = word_of_nat (length (data p))"

text \<open>
  \<^verbatim>\<open>std::string(data.c_str() + offset)\<close> copies the bytes from \<^verbatim>\<open>offset\<close> up to the first
  terminator; \<^verbatim>\<open>c_str()\<close> supplies one after the last byte of the buffer, so the scan of
  an in-bounds offset ends at the end of the buffer at the latest.
\<close>

definition getStringAt :: "SimpleStringPool \<Rightarrow> 32 word \<Rightarrow> string" where
  "getStringAt p offset =
     (if unat offset \<ge> length (data p) then []
      else takeWhile (\<lambda>c. c \<noteq> NUL) (drop (unat offset) (data p)))"

text \<open>
  The fields are private and \<^verbatim>\<open>add\<close> is the only member that changes them, so the pool
  states of a run are those reached from the empty pool by a sequence of \<^verbatim>\<open>add\<close> calls.
\<close>

definition pool_after :: "string list \<Rightarrow> SimpleStringPool" where
  "pool_after strs = foldl (\<lambda>p s. snd (add s p)) empty_pool strs"

text \<open>
  What ties the map to the buffer: every recorded offset is where its key starts in the
  buffer, followed by a terminator.
\<close>

definition pool_inv :: "SimpleStringPool \<Rightarrow> bool" where
  "pool_inv p \<longleftrightarrow>
     (\<forall>s off. offsets p s = Some off \<longrightarrow>
        take (length s + 1) (drop (unat off) (data p)) = s @ [NUL])"


section \<open>The dump filter of main.cpp\<close>

text \<open>
  After the full dump has been written to \<^verbatim>\<open>tempOutput\<close>, \<^verbatim>\<open>main\<close> reads it back line by
  line and, if \<^verbatim>\<open>debug.txt\<close> could be opened, copies the lines outside the line-number
  section to it.  The file is opened anew, so it starts empty.
\<close>

text \<open>
  The lines that successive \<^verbatim>\<open>std::getline(iss, line)\<close> calls deliver: a line ends at a
  line feed, which is dropped; at the end of the input a last line is delivered only if
  it holds at least one character.
\<close>

fun getlines_from :: "string \<Rightarrow> string \<Rightarrow> string list" where
  "getlines_from cur [] = (if cur = [] then [] else [cur])"
| "getlines_from cur (c # cs) =
     (if c = LF then cur # getlines_from [] cs else getlines_from (cur @ [c]) cs)"

definition getlines :: "string \<Rightarrow> string list" where
  "getlines s = getlines_from [] s"

text \<open>\<^verbatim>\<open>line.find(pat) != std::string::npos\<close>: \<open>pat\<close> occurs somewhere in \<open>line\<close>.\<close>

fun starts_with :: "string \<Rightarrow> string \<Rightarrow> bool" where
  "starts_with s [] = True"
| "starts_with [] (p # ps) = False"
| "starts_with (c # cs) (p # ps) = (c = p \<and> starts_with cs ps)"

fun found :: "string \<Rightarrow> string \<Rightarrow> bool" where
  "found [] pat = (pat = [])"
| "found (c # cs) pat = (starts_with (c # cs) pat \<or> found cs pat)"

text \<open>
  The \<^verbatim>\<open>while\<close> loop.  The state is the flag \<^verbatim>\<open>inDebugLine\<close> and the bytes written to
  \<^verbatim>\<open>dumpFile\<close> so far; the result is the content of the file when the loop ends.
\<close>

fun filter_loop :: "bool \<Rightarrow> string \<Rightarrow> string list \<Rightarrow> string" where
  "filter_loop inDebugLine dumpFile [] = dumpFile"
| "filter_loop inDebugLine dumpFile (line # rest) =
     (if found line ''.debug_line contents:'' then filter_loop True dumpFile rest
      else
        let inDebugLine' =
              (if inDebugLine \<and> found line ''.debug_'' \<and> found line ''contents:''
               then False else inDebugLine)
        in if \<not> inDebugLine' then filter_loop inDebugLine' (dumpFile @ line @ [LF]) rest
           else filter_loop inDebugLine' dumpFile rest)"

definition debug_line_filter :: "string \<Rightarrow> string" where
  "debug_line_filter tempOutput = filter_loop False [] (getlines tempOutput)"

text \<open>
  The filter stated by position.  A section header line is a line in which both
  \<^verbatim>\<open>.debug_\<close> and \<^verbatim>\<open>contents:\<close> occur, the line-number header one in which
  \<^verbatim>\<open>.debug_line contents:\<close> occurs.  Line \<open>i\<close> is omitted when some line-number header at
  \<open>j \<le> i\<close> has no section header line after it up to and including \<open>i\<close>.
\<close>

definition is_section_header :: "string \<Rightarrow> bool" where
  "is_section_header line \<longleftrightarrow> found line ''.debug_'' \<and> found line ''contents:''"

definition is_debug_line_header :: "string \<Rightarrow> bool" where
  "is_debug_line_header line \<longleftrightarrow> found line ''.debug_line contents:''"

definition omitted :: "string list \<Rightarrow> nat \<Rightarrow> bool" where
  "omitted ls i \<longleftrightarrow>
     (\<exists>j\<in>{..i}. is_debug_line_header (ls ! j) \<and>
        (\<forall>k\<in>{j<..i}. \<not> is_section_header (ls ! k)))"

definition kept_lines :: "string list \<Rightarrow> string list" where
  "kept_lines ls = map ((!) ls) (filter (\<lambda>i. \<not> omitted ls i) [0..<length ls])"

text \<open>The same with the flag the loop starts from, for the induction over the lines.\<close>

definition omitted_from :: "bool \<Rightarrow> string list \<Rightarrow> nat \<Rightarrow> bool" where
  "omitted_from b ls i \<longleftrightarrow>
     (b \<and> (\<forall>k\<in>{..i}. \<not> is_section_header (ls ! k))) \<or> omitted ls i"


section \<open>Debug-information entries as main_simple.cpp uses them\<close>

text \<open>
  \<^verbatim>\<open>DIE\<close>, \<^verbatim>\<open>DIEValue\<close> and the \<^verbatim>\<open>dwarf\<close> enumerations are declared by the LLVM headers
  that main_simple.cpp includes.  An entry is an object, and a \<^verbatim>\<open>DIEEntry\<close> value refers to
  one: an entry has an address, the tree holds what construction fixes (tag, values,
  children), and the two fields that resolution writes live in a store indexed by
  address, so that a reference reads what resolution wrote to its target.

  Tags, attributes and forms are the numbers of the DWARF standard.
\<close>

type_synonym addr = nat
type_synonym Tag = nat
type_synonym Attribute = nat
type_synonym Form = nat

definition DW_TAG_member :: Tag where "DW_TAG_member = 0x0d"
definition DW_TAG_pointer_type :: Tag where "DW_TAG_pointer_type = 0x0f"
definition DW_TAG_compile_unit :: Tag where "DW_TAG_compile_unit = 0x11"
definition DW_TAG_structure_type :: Tag where "DW_TAG_structure_type = 0x13"
definition DW_TAG_base_type :: Tag where "DW_TAG_base_type = 0x24"

definition DW_AT_name :: Attribute where "DW_AT_name = 0x03"
definition DW_AT_byte_size :: Attribute where "DW_AT_byte_size = 0x0b"
definition DW_AT_language :: Attribute where "DW_AT_language = 0x13"
definition DW_AT_producer :: Attribute where "DW_AT_producer = 0x25"
definition DW_AT_data_member_location :: Attribute where "DW_AT_data_member_location = 0x38"
definition DW_AT_encoding :: Attribute where "DW_AT_encoding = 0x3e"
definition DW_AT_type :: Attribute where "DW_AT_type = 0x49"

definition DW_FORM_data2 :: Form where "DW_FORM_data2 = 0x05"
definition DW_FORM_data4 :: Form where "DW_FORM_data4 = 0x06"
definition DW_FORM_data8 :: Form where "DW_FORM_data8 = 0x07"
definition DW_FORM_string :: Form where "DW_FORM_string = 0x08"
definition DW_FORM_data1 :: Form where "DW_FORM_data1 = 0x0b"
definition DW_FORM_strp :: Form where "DW_FORM_strp = 0x0e"
definition DW_FORM_ref4 :: Form where "DW_FORM_ref4 = 0x13"

text \<open>
  What a value holds, by the cases of \<^verbatim>\<open>switch (V.getType())\<close>: \<^verbatim>\<open>isInteger\<close> with the
  64-bit \<^verbatim>\<open>getDIEInteger().getValue()\<close>, \<^verbatim>\<open>isEntry\<close> with the entry that
  \<^verbatim>\<open>getDIEEntry().getEntry()\<close> refers to, and every other kind, which \<^verbatim>\<open>printDIE\<close> sends
  to its \<^verbatim>\<open>default\<close> branch.
\<close>

datatype DIEValueType = isInteger "64 word" | isEntry addr | isOther

datatype DIEValue = DIEValue (getAttribute: Attribute) (getForm: Form) (getType: DIEValueType)

datatype DIE =
  DIE (getAddr: addr) (getTag: Tag) (getValues: "DIEValue list") (forceChildren: bool)
      (getChildren: "DIE list")

text \<open>
  Modelled from the spec: \<^verbatim>\<open>DIE::hasChildren\<close> is declared outside the repository.  Having
  children is a structural flag, recorded independently of the child sequence being
  empty and not inferred purely from its length: it is set by the flag, and by a child.
\<close>

definition hasChildren :: "DIE \<Rightarrow> bool" where
  "hasChildren die \<longleftrightarrow> forceChildren die \<or> getChildren die \<noteq> []"

text \<open>
  Modelled from the spec: the offset and the abbreviation id of an entry are numbers to
  which the specification gives no width.  Before resolution the fields hold whatever
  the store holds.
\<close>

record DIEState =
  Offset :: "addr \<Rightarrow> nat"
  AbbrevNumber :: "addr \<Rightarrow> nat"

definition getOffset :: "DIEState \<Rightarrow> DIE \<Rightarrow> nat" where
  "getOffset st die = Offset st (getAddr die)"

definition getAbbrevNumber :: "DIEState \<Rightarrow> DIE \<Rightarrow> nat" where
  "getAbbrevNumber st die = AbbrevNumber st (getAddr die)"

fun preorder :: "DIE \<Rightarrow> DIE list" where
  "preorder (DIE a t vs fc cs) = DIE a t vs fc cs # concat (map preorder cs)"

definition addrs :: "DIE \<Rightarrow> addr list" where
  "addrs die = map getAddr (preorder die)"

section \<open>The dump writer of main_simple.cpp\<close>

text \<open>
  The name tables of \<^verbatim>\<open>llvm::dwarf\<close> are parameters.  So is what \<^verbatim>\<open>format("%08x", val)\<close>
  and \<^verbatim>\<open>format("%x", val)\<close> print for the 64-bit \<^verbatim>\<open>val\<close>: the conversion is the one for
  \<^verbatim>\<open>unsigned int\<close>, and the source does not fix what it makes of a wider argument.
\<close>

record DumpEnv =
  TagString :: "Tag \<Rightarrow> string"
  AttributeString :: "Attribute \<Rightarrow> string"
  AttributeEncodingString :: "64 word \<Rightarrow> string"
  FormEncodingString :: "Form \<Rightarrow> string"
  format_08x_val :: "64 word \<Rightarrow> string"
  format_x_val :: "64 word \<Rightarrow> string"

text \<open>Unsigned numbers in decimal (\<^verbatim>\<open>OS << unsigned\<close>) and in hexadecimal (\<^verbatim>\<open>%x\<close>, \<^verbatim>\<open>%08x\<close>).\<close>

fun decimal :: "nat \<Rightarrow> string" where
  "decimal n =
     (if n < 10 then [''0123456789'' ! n]
      else decimal (n div 10) @ [''0123456789'' ! (n mod 10)])"

fun hex :: "nat \<Rightarrow> string" where
  "hex n =
     (if n < 16 then [''0123456789abcdef'' ! n]
      else hex (n div 16) @ [''0123456789abcdef'' ! (n mod 16)])"

declare decimal.simps [simp del] hex.simps [simp del]

definition format_08x :: "nat \<Rightarrow> string" where
  "format_08x n = replicate (8 - length (hex n)) CHR ''0'' @ hex n"

text \<open>
  One round of the loop over \<^verbatim>\<open>die.values()\<close>: the stream before, the stream after.
  \<^verbatim>\<open>getStringAt(val)\<close> narrows the 64-bit \<^verbatim>\<open>val\<close> to its \<^verbatim>\<open>uint32_t\<close> parameter.
\<close>

definition printValue ::
  "DumpEnv \<Rightarrow> SimpleStringPool \<Rightarrow> DIEState \<Rightarrow> string \<Rightarrow> string \<Rightarrow> DIEValue \<Rightarrow> string" where
  "printValue env stringPool st indentStr OS V =
     (let OS1 = OS @ indentStr @ ''  '' @ AttributeString env (getAttribute V) @ '' = '';
          OS2 =
            (case getType V of
               isInteger val \<Rightarrow>
                 if getForm V = DW_FORM_strp then
                   (let str = getStringAt stringPool (ucast val)
                    in OS1 @ [CHR 0x22] @ str @ [CHR 0x22] @ '' (strp offset: 0x'' @
                       format_08x_val env val @ '')'')
                 else if getAttribute V = DW_AT_encoding then
                   OS1 @ AttributeEncodingString env val
                 else OS1 @ ''0x'' @ format_x_val env val
             | isEntry refDie \<Rightarrow> OS1 @ ''{0x'' @ format_08x (Offset st refDie) @ ''}''
             | isOther \<Rightarrow> OS1 @ ''<unknown type>'')
      in OS2 @ '' ['' @ FormEncodingString env (getForm V) @ '']'' @ [LF])"

text \<open>
  \<^verbatim>\<open>printDIE\<close> on a stream.  The indent starts at 0 in \<^verbatim>\<open>main\<close> and grows by 2 with the
  depth, so it is a natural number.
\<close>

fun printDIE ::
  "DumpEnv \<Rightarrow> SimpleStringPool \<Rightarrow> DIEState \<Rightarrow> string \<Rightarrow> DIE \<Rightarrow> nat \<Rightarrow> string" where
  "printDIE env stringPool st OS (DIE a t vs fc cs) indent =
     (let die = DIE a t vs fc cs;
          indentStr = replicate indent CHR '' '';
          OS1 = OS @ indentStr @ ''0x'' @ format_08x (getOffset st die) @ '': '';
          OS2 = OS1 @ TagString env (getTag die);
          OS3 = OS2 @ '' ['' @ decimal (getAbbrevNumber st die) @ '']'';
          OS4 = (if hasChildren die then OS3 @ '' *'' @ [LF] else OS3 @ [LF]);
          OS5 = foldl (printValue env stringPool st indentStr) OS4 vs;
          OS6 = foldl (\<lambda>os child. printDIE env stringPool st os child (indent + 2)) OS5 cs
      in if hasChildren die then OS6 @ indentStr @ ''NULL'' @ [LF] else OS6)"


text \<open>
  The lines of the dump, one definition per kind of line, for stating what \<^verbatim>\<open>printDIE\<close>
  writes.  A line is the text written up to and including the line feed that ends it.
\<close>

definition header_line :: "DumpEnv \<Rightarrow> DIEState \<Rightarrow> nat \<Rightarrow> DIE \<Rightarrow> string" where
  "header_line env st indent die =
     replicate indent CHR '' '' @ ''0x'' @ format_08x (getOffset st die) @ '': '' @
     TagString env (getTag die) @ '' ['' @ decimal (getAbbrevNumber st die) @ '']'' @
     (if hasChildren die then '' *'' else []) @ [LF]"

definition decoded_value :: "DumpEnv \<Rightarrow> SimpleStringPool \<Rightarrow> DIEState \<Rightarrow> DIEValue \<Rightarrow> string" where
  "decoded_value env stringPool st V =
     (case getType V of
        isInteger val \<Rightarrow>
          if getForm V = DW_FORM_strp then
            [CHR 0x22] @ getStringAt stringPool (ucast val) @ [CHR 0x22] @
            '' (strp offset: 0x'' @ format_08x_val env val @ '')''
          else if getAttribute V = DW_AT_encoding then AttributeEncodingString env val
          else ''0x'' @ format_x_val env val
      | isEntry refDie \<Rightarrow> ''{0x'' @ format_08x (Offset st refDie) @ ''}''
      | isOther \<Rightarrow> ''<unknown type>'')"

definition attribute_line ::
  "DumpEnv \<Rightarrow> SimpleStringPool \<Rightarrow> DIEState \<Rightarrow> nat \<Rightarrow> DIEValue \<Rightarrow> string" where
  "attribute_line env stringPool st indent V =
     replicate indent CHR '' '' @ ''  '' @ AttributeString env (getAttribute V) @ '' = '' @
     decoded_value env stringPool st V @
     '' ['' @ FormEncodingString env (getForm V) @ '']'' @ [LF]"

definition closing_line :: "nat \<Rightarrow> string" where
  "closing_line indent = replicate indent CHR '' '' @ ''NULL'' @ [LF]"


section \<open>Resolution\<close>

text \<open>
  Modelled from the spec: \<^verbatim>\<open>DIE::computeOffsetsAndAbbrevs\<close> and \<^verbatim>\<open>DIEAbbrevSet\<close>, which
  main_simple.cpp calls, are LLVM library code and not part of the repository.  What
  follows is the resolution of the specification: the abbreviation table, the encoded
  sizes, and the passes over the tree in pre-order.
\<close>

text \<open>
  Modelled from the spec: the shape signature of an entry is its tag, its has-children
  flag and the ordered list of its (attribute kind, form) pairs, not the values.
\<close>

type_synonym shape = "Tag \<times> bool \<times> (Attribute \<times> Form) list"

definition shape_of :: "DIE \<Rightarrow> shape" where
  "shape_of die =
     (getTag die, hasChildren die, map (\<lambda>V. (getAttribute V, getForm V)) (getValues die))"

text \<open>
  Modelled from the spec: the abbreviation table maps a shape to a small integer id
  assigned in first-seen order, the ids being sequential from a base the caller supplies.
  The shapes are kept in the order they were first seen; the id of a shape is the base
  plus its position.
\<close>

record AbbrevTable =
  base_id :: nat
  shapes :: "shape list"

definition fresh_table :: "nat \<Rightarrow> AbbrevTable" where
  "fresh_table b = \<lparr>base_id = b, shapes = []\<rparr>"

fun index_of :: "'a \<Rightarrow> 'a list \<Rightarrow> nat option" where
  "index_of x [] = None"
| "index_of x (y # ys) =
     (if x = y then Some 0 else map_option Suc (index_of x ys))"

definition canonicalize :: "DIE \<Rightarrow> AbbrevTable \<Rightarrow> nat \<times> AbbrevTable" where
  "canonicalize die tbl =
     (case index_of (shape_of die) (shapes tbl) of
        Some i \<Rightarrow> (base_id tbl + i, tbl)
      | None \<Rightarrow>
          (base_id tbl + length (shapes tbl),
           tbl\<lparr>shapes := shapes tbl @ [shape_of die]\<rparr>))"

text \<open>
  Modelled from the spec: the global layout parameters, the two resolution failures, and
  the encoded sizes.  The abbreviation id is a variable-length integer (seven bits to the
  byte).  A value has the fixed width of its form: 1, 2, 4 or 8 bytes for the fixed-size
  integer forms, the offset size for a string-pool reference, a fixed width for an entry
  reference.  A value that does not fit its form, or is of a kind its form does not
  encode, is a \<open>FormValueMismatch\<close>, found when its size is computed.
\<close>

record FormParams =
  address_size :: nat
  offset_size :: nat
  format_version :: nat

datatype resolution_error = DanglingReference | FormValueMismatch

fun uleb128_size :: "nat \<Rightarrow> nat" where
  "uleb128_size n = (if n < 128 then 1 else 1 + uleb128_size (n div 128))"

declare uleb128_size.simps [simp del]

definition fixed_width :: "nat \<Rightarrow> 64 word \<Rightarrow> resolution_error + nat" where
  "fixed_width w val = (if unat val < 2 ^ (8 * w) then Inr w else Inl FormValueMismatch)"

definition value_size :: "FormParams \<Rightarrow> DIEValue \<Rightarrow> resolution_error + nat" where
  "value_size fp V =
     (case getType V of
        isInteger val \<Rightarrow>
          if getForm V = DW_FORM_data1 then fixed_width 1 val
          else if getForm V = DW_FORM_data2 then fixed_width 2 val
          else if getForm V = DW_FORM_data4 then fixed_width 4 val
          else if getForm V = DW_FORM_data8 then fixed_width 8 val
          else if getForm V = DW_FORM_strp then Inr (offset_size fp)
          else Inl FormValueMismatch
      | isEntry target \<Rightarrow>
          if getForm V = DW_FORM_ref4 then Inr 4 else Inl FormValueMismatch
      | isOther \<Rightarrow> Inl FormValueMismatch)"

fun values_size :: "FormParams \<Rightarrow> DIEValue list \<Rightarrow> resolution_error + nat" where
  "values_size fp [] = Inr 0"
| "values_size fp (V # Vs) =
     (case value_size fp V of
        Inl e \<Rightarrow> Inl e
      | Inr n \<Rightarrow> (case values_size fp Vs of Inl e \<Rightarrow> Inl e | Inr m \<Rightarrow> Inr (n + m)))"

text \<open>
  Modelled from the spec: pass 1 visits every entry in traversal order and assigns its
  abbreviation id through the table.
\<close>

definition assign_abbrev :: "AbbrevTable \<times> DIEState \<Rightarrow> DIE \<Rightarrow> AbbrevTable \<times> DIEState" where
  "assign_abbrev s die =
     (let (n, tbl') = canonicalize die (fst s)
      in (tbl', (snd s)\<lparr>AbbrevNumber := (AbbrevNumber (snd s))(getAddr die := n)\<rparr>))"

definition abbrev_pass :: "AbbrevTable \<Rightarrow> DIEState \<Rightarrow> DIE \<Rightarrow> AbbrevTable \<times> DIEState" where
  "abbrev_pass tbl st root = foldl assign_abbrev (tbl, st) (preorder root)"

text \<open>
  Modelled from the spec: pass 2 walks the same order with a running byte cursor.  The
  offset of an entry is the cursor when the entry is visited; the cursor then advances by
  the encoded size of the abbreviation id and of each value and, after all children are
  visited, by one terminator unit if the entry has children.
\<close>

fun offset_pass ::
      "FormParams \<Rightarrow> DIE \<Rightarrow> nat \<times> DIEState \<Rightarrow> resolution_error + (nat \<times> DIEState)"
  and offset_pass_children ::
      "FormParams \<Rightarrow> DIE list \<Rightarrow> nat \<times> DIEState \<Rightarrow> resolution_error + (nat \<times> DIEState)"
where
  "offset_pass fp (DIE a t vs fc cs) (cursor, st) =
     (let st1 = st\<lparr>Offset := (Offset st)(a := cursor)\<rparr>
      in case values_size fp vs of
           Inl e \<Rightarrow> Inl e
         | Inr vsize \<Rightarrow>
             (case offset_pass_children fp cs
                     (cursor + uleb128_size (AbbrevNumber st a) + vsize, st1) of
                Inl e \<Rightarrow> Inl e
              | Inr (cursor2, st2) \<Rightarrow>
                  Inr (if hasChildren (DIE a t vs fc cs) then cursor2 + 1 else cursor2, st2)))"
| "offset_pass_children fp [] s = Inr s"
| "offset_pass_children fp (child # rest) s =
     (case offset_pass fp child s of
        Inl e \<Rightarrow> Inl e
      | Inr s' \<Rightarrow> offset_pass_children fp rest s')"

text \<open>
  Modelled from the spec: resolution fails with \<open>DanglingReference\<close>, before any offset is
  assigned, if an entry reference has a target outside the tree.  Pass 3 leaves the
  entries as they are: the number emitted for an entry reference is the offset of its
  target, read once pass 2 has covered the whole tree (\<^verbatim>\<open>refDie.getOffset()\<close> in
  \<^verbatim>\<open>printDIE\<close>).
\<close>

fun entry_targets :: "DIEValue list \<Rightarrow> addr list" where
  "entry_targets [] = []"
| "entry_targets (V # Vs) =
     (case getType V of isEntry target \<Rightarrow> target # entry_targets Vs | _ \<Rightarrow> entry_targets Vs)"

definition dangling :: "DIE \<Rightarrow> bool" where
  "dangling root \<longleftrightarrow>
     (\<exists>target \<in> set (concat (map (\<lambda>die. entry_targets (getValues die)) (preorder root))).
        target \<notin> set (addrs root))"

definition resolve ::
  "FormParams \<Rightarrow> AbbrevTable \<Rightarrow> nat \<Rightarrow> DIE \<Rightarrow> DIEState \<Rightarrow> resolution_error + DIEState" where
  "resolve fp tbl base root st =
     (if dangling root then Inl DanglingReference
      else
        (case offset_pass fp root (base, snd (abbrev_pass tbl st root)) of
           Inl e \<Rightarrow> Inl e
         | Inr (end_cursor, st') \<Rightarrow> Inr st'))"

text \<open>The (tag, abbreviation id, offset) triples of the entries in traversal order.\<close>

definition triples :: "DIEState \<Rightarrow> DIE \<Rightarrow> (Tag \<times> nat \<times> nat) list" where
  "triples st root =
     map (\<lambda>die. (getTag die, getAbbrevNumber st die, getOffset st die)) (preorder root)"

definition descendants :: "DIE \<Rightarrow> DIE list" where
  "descendants die = concat (map preorder (getChildren die))"


section \<open>The tree that main_simple.cpp builds\<close>

text \<open>
  The entries of \<^verbatim>\<open>main\<close> in the order of their creation, at addresses 0 to 7, and the pool
  after the seven \<^verbatim>\<open>add\<close> calls, which return the offsets 0, 6, 10, 15, 23, 25 and 27.
\<close>

definition main_pool :: SimpleStringPool where
  "main_pool = pool_after [''warpo'', ''int'', ''char'', ''MyClass'', ''x'', ''y'', ''name'']"

definition intType :: DIE where
  "intType = DIE 1 DW_TAG_base_type
     [DIEValue DW_AT_name DW_FORM_strp (isInteger 6),
      DIEValue DW_AT_encoding DW_FORM_data1 (isInteger 5),
      DIEValue DW_AT_byte_size DW_FORM_data1 (isInteger 4)] False []"

definition charType :: DIE where
  "charType = DIE 2 DW_TAG_base_type
     [DIEValue DW_AT_name DW_FORM_strp (isInteger 10),
      DIEValue DW_AT_encoding DW_FORM_data1 (isInteger 6),
      DIEValue DW_AT_byte_size DW_FORM_data1 (isInteger 1)] False []"

definition charPtrType :: DIE where
  "charPtrType = DIE 3 DW_TAG_pointer_type
     [DIEValue DW_AT_byte_size DW_FORM_data1 (isInteger 8),
      DIEValue DW_AT_type DW_FORM_ref4 (isEntry 2)] False []"

definition memberX :: DIE where
  "memberX = DIE 5 DW_TAG_member
     [DIEValue DW_AT_name DW_FORM_strp (isInteger 23),
      DIEValue DW_AT_type DW_FORM_ref4 (isEntry 1),
      DIEValue DW_AT_data_member_location DW_FORM_data1 (isInteger 0)] False []"

definition memberY :: DIE where
  "memberY = DIE 6 DW_TAG_member
     [DIEValue DW_AT_name DW_FORM_strp (isInteger 25),
      DIEValue DW_AT_type DW_FORM_ref4 (isEntry 1),
      DIEValue DW_AT_data_member_location DW_FORM_data1 (isInteger 4)] False []"

definition memberName :: DIE where
  "memberName = DIE 7 DW_TAG_member
     [DIEValue DW_AT_name DW_FORM_strp (isInteger 27),
      DIEValue DW_AT_type DW_FORM_ref4 (isEntry 3),
      DIEValue DW_AT_data_member_location DW_FORM_data1 (isInteger 8)] False []"

definition classType :: DIE where
  "classType = DIE 4 DW_TAG_structure_type
     [DIEValue DW_AT_name DW_FORM_strp (isInteger 15),
      DIEValue DW_AT_byte_size DW_FORM_data1 (isInteger 24)] False
     [memberX, memberY, memberName]"

definition cu :: DIE where
  "cu = DIE 0 DW_TAG_compile_unit
     [DIEValue DW_AT_producer DW_FORM_strp (isInteger 0),
      DIEValue DW_AT_language DW_FORM_data2 (isInteger 4)] False
     [intType, charType, charPtrType, classType]"

definition formParams :: FormParams where
  "formParams = \<lparr>address_size = 4, offset_size = 4, format_version = 4\<rparr>"

definition unresolved :: DIEState where
  "unresolved = \<lparr>Offset = (\<lambda>a. 0), AbbrevNumber = (\<lambda>a. 0)\<rparr>"

text \<open>
  A second tree, with references in every direction: the first child refers to the
  second, which comes later in traversal order, the second to the first, and the third to
  itself.
\<close>

definition ref_first :: DIE where
  "ref_first = DIE 11 DW_TAG_member [DIEValue DW_AT_type DW_FORM_ref4 (isEntry 12)] False []"

definition ref_second :: DIE where
  "ref_second = DIE 12 DW_TAG_pointer_type [DIEValue DW_AT_type DW_FORM_ref4 (isEntry 11)] False []"

definition ref_third :: DIE where
  "ref_third = DIE 13 DW_TAG_pointer_type [DIEValue DW_AT_type DW_FORM_ref4 (isEntry 13)] False []"

definition ref_tree :: DIE where
  "ref_tree = DIE 10 DW_TAG_compile_unit [] False [ref_first, ref_second, ref_third]"

text \<open>The stores that resolution leaves for the two trees.\<close>

definition main_resolved :: DIEState where
  "main_resolved =
     \<lparr>Offset = (\<lambda>a. 0)(0 := 11, 1 := 18, 2 := 25, 3 := 32, 4 := 38, 5 := 44, 6 := 54, 7 := 64),
      AbbrevNumber = (\<lambda>a. 0)(0 := 1, 1 := 2, 2 := 2, 3 := 3, 4 := 4, 5 := 5, 6 := 5, 7 := 5)\<rparr>"

definition ref_resolved :: DIEState where
  "ref_resolved =
     \<lparr>Offset = (\<lambda>a. 0)(10 := 0, 11 := 1, 12 := 6, 13 := 11),
      AbbrevNumber = (\<lambda>a. 0)(10 := 1, 11 := 2, 12 := 3, 13 := 3)\<rparr>"

text \<open>
  Name tables for the tags, attributes, forms and encodings above, and the low 32 bits
  for what \<^verbatim>\<open>%x\<close> prints of a 64-bit argument.
\<close>

definition example_TagString :: "Tag \<Rightarrow> string" where
  "example_TagString t =
     (if t = DW_TAG_compile_unit then ''DW_TAG_compile_unit''
      else if t = DW_TAG_base_type then ''DW_TAG_base_type''
      else if t = DW_TAG_pointer_type then ''DW_TAG_pointer_type''
      else if t = DW_TAG_structure_type then ''DW_TAG_structure_type''
      else if t = DW_TAG_member then ''DW_TAG_member''
      else [])"

definition example_AttributeString :: "Attribute \<Rightarrow> string" where
  "example_AttributeString a =
     (if a = DW_AT_name then ''DW_AT_name''
      else if a = DW_AT_byte_size then ''DW_AT_byte_size''
      else if a = DW_AT_language then ''DW_AT_language''
      else if a = DW_AT_producer then ''DW_AT_producer''
      else if a = DW_AT_data_member_location then ''DW_AT_data_member_location''
      else if a = DW_AT_encoding then ''DW_AT_encoding''
      else if a = DW_AT_type then ''DW_AT_type''
      else [])"

definition example_FormEncodingString :: "Form \<Rightarrow> string" where
  "example_FormEncodingString f =
     (if f = DW_FORM_data1 then ''DW_FORM_data1''
      else if f = DW_FORM_data2 then ''DW_FORM_data2''
      else if f = DW_FORM_data4 then ''DW_FORM_data4''
      else if f = DW_FORM_data8 then ''DW_FORM_data8''
      else if f = DW_FORM_string then ''DW_FORM_string''
      else if f = DW_FORM_strp then ''DW_FORM_strp''
      else if f = DW_FORM_ref4 then ''DW_FORM_ref4''
      else [])"

definition example_AttributeEncodingString :: "64 word \<Rightarrow> string" where
  "example_AttributeEncodingString e =
     (if e = 5 then ''DW_ATE_signed''
      else if e = 6 then ''DW_ATE_signed_char''
      else [])"

definition example_env :: DumpEnv where
  "example_env =
     \<lparr>TagString = example_TagString,
      AttributeString = example_AttributeString,
      AttributeEncodingString = example_AttributeEncodingString,
      FormEncodingString = example_FormEncodingString,
      format_08x_val = (\<lambda>val. format_08x (unat (ucast val :: 32 word))),
      format_x_val = (\<lambda>val. hex (unat (ucast val :: 32 word)))\<rparr>"


section \<open>Notions used in the proofs about resolution\<close>

text \<open>The id a table gives a shape it holds, and a table that grew out of another.\<close>

definition id_in :: "AbbrevTable \<Rightarrow> shape \<Rightarrow> nat option" where
  "id_in tbl sh = map_option (\<lambda>i. base_id tbl + i) (index_of sh (shapes tbl))"

definition extends :: "AbbrevTable \<Rightarrow> AbbrevTable \<Rightarrow> bool" where
  "extends tbl tbl' \<longleftrightarrow> base_id tbl' = base_id tbl \<and> (\<exists>ext. shapes tbl' = shapes tbl @ ext)"

text \<open>
  What pass 2 does with a list of addresses when it takes the cursor from \<open>c\<close> to \<open>c'\<close> and
  the store from \<open>st\<close> to \<open>st'\<close>: abbreviation ids and the offsets elsewhere stay, and if
  the addresses are distinct, their offsets increase strictly within \<open>c \<le> \<dots> < c'\<close>.
\<close>

definition laid_out :: "addr list \<Rightarrow> nat \<Rightarrow> DIEState \<Rightarrow> nat \<Rightarrow> DIEState \<Rightarrow> bool" where
  "laid_out as c st c' st' \<longleftrightarrow>
     AbbrevNumber st' = AbbrevNumber st \<and>
     (\<forall>a. a \<notin> set as \<longrightarrow> Offset st' a = Offset st a) \<and>
     c \<le> c' \<and>
     (distinct as \<longrightarrow>
        sorted_wrt (<) (map (Offset st') as) \<and>
        (\<forall>a \<in> set as. c \<le> Offset st' a \<and> Offset st' a < c'))"

text \<open>Two stores that hold the same abbreviation ids, or the same offsets, on a set.\<close>

definition same_abbrevs :: "addr set \<Rightarrow> DIEState \<Rightarrow> DIEState \<Rightarrow> bool" where
  "same_abbrevs S st st' \<longleftrightarrow> (\<forall>a \<in> S. AbbrevNumber st a = AbbrevNumber st' a)"

definition same_offsets :: "addr set \<Rightarrow> DIEState \<Rightarrow> DIEState \<Rightarrow> bool" where
  "same_offsets S st st' \<longleftrightarrow> (\<forall>a \<in> S. Offset st a = Offset st' a)"

text \<open>Two runs of pass 2 that fail alike, or end at the same cursor with the same offsets on a set.\<close>

definition same_result ::
  "addr set \<Rightarrow> resolution_error + (nat \<times> DIEState) \<Rightarrow> resolution_error + (nat \<times> DIEState) \<Rightarrow> bool"
where
  "same_result S r r' \<longleftrightarrow>
     (case r of
        Inl e \<Rightarrow> r' = Inl e
      | Inr s \<Rightarrow> (\<exists>s'. r' = Inr (fst s, s') \<and> same_offsets S (snd s) s'))"


section \<open>Collections of defining equations\<close>

lemmas dwarf_constants =
  DW_TAG_member_def DW_TAG_pointer_type_def DW_TAG_compile_unit_def
  DW_TAG_structure_type_def DW_TAG_base_type_def
  DW_AT_name_def DW_AT_byte_size_def DW_AT_language_def DW_AT_producer_def
  DW_AT_data_member_location_def DW_AT_encoding_def DW_AT_type_def
  DW_FORM_data2_def DW_FORM_data4_def DW_FORM_data8_def DW_FORM_string_def
  DW_FORM_data1_def DW_FORM_strp_def DW_FORM_ref4_def

lemmas main_tree_defs =
  cu_def intType_def charType_def charPtrType_def classType_def
  memberX_def memberY_def memberName_def

lemmas ref_tree_defs = ref_tree_def ref_first_def ref_second_def ref_third_def


section \<open>Properties of the string pool\<close>

text \<open>
  C4. For every string \<open>s\<close> and every pool, calling \<^verbatim>\<open>add\<close> with \<open>s\<close> twice returns the same
  offset both times, and the second call leaves the pool (buffer and map) as the first
  call left it, so the byte size can grow on the first call only.
\<close>

theorem add_twice_same_offset:
  "fst (add s (snd (add s p))) = fst (add s p) \<and>
   snd (add s (snd (add s p))) = snd (add s p) \<and>
   data (snd (add s (snd (add s p)))) = data (snd (add s p)) \<and>
   getSize (snd (add s (snd (add s p)))) = getSize (snd (add s p))"
  by (cases "offsets p s") (simp_all add: add_def Let_def)

lemma pool_after_snoc: "pool_after (strs @ [s]) = snd (add s (pool_after strs))"
  by (simp add: pool_after_def)

lemma pool_after_Nil: "pool_after [] = empty_pool"
  by (simp add: pool_after_def)

lemma data_add_mono: "length (data p) \<le> length (data (snd (add s p)))"
  by (cases "offsets p s") (simp_all add: add_def Let_def)

lemma unat_size32: "n < 2 ^ 32 \<Longrightarrow> unat (word_of_nat n :: 32 word) = n"
  by (simp add: unat_of_nat)

lemma pool_inv_add:
  assumes "pool_inv p" and "length (data p) < 2 ^ 32"
  shows "pool_inv (snd (add s p))"
proof (cases "offsets p s")
  case (Some off)
  then show ?thesis using assms by (simp add: add_def)
next
  case None
  have u: "unat (word_of_nat (length (data p)) :: 32 word) = length (data p)"
    using assms(2) by (rule unat_size32)
  show ?thesis
    unfolding pool_inv_def
  proof (intro allI impI)
    fix t off
    assume h: "offsets (snd (add s p)) t = Some off"
    show "take (length t + 1) (drop (unat off) (data (snd (add s p)))) = t @ [NUL]"
    proof (cases "t = s")
      case True
      with h None have "off = word_of_nat (length (data p))"
        by (simp add: add_def Let_def)
      with None True u show ?thesis
        by (simp add: add_def Let_def)
    next
      case False
      with h None have o: "offsets p t = Some off"
        by (simp add: add_def Let_def)
      with assms(1) have e: "take (length t + 1) (drop (unat off) (data p)) = t @ [NUL]"
        by (simp add: pool_inv_def)
      then have "length (take (length t + 1) (drop (unat off) (data p))) = length t + 1"
        by simp
      then have "length t + 1 \<le> length (data p) - unat off"
        by simp
      with e None show ?thesis
        by (simp add: add_def Let_def)
    qed
  qed
qed

lemma pool_inv_after:
  "length (data (pool_after strs)) < 2 ^ 32 \<Longrightarrow> pool_inv (pool_after strs)"
proof (induction strs rule: rev_induct)
  case Nil
  show ?case by (simp add: pool_after_Nil empty_pool_def pool_inv_def)
next
  case (snoc s strs)
  have "length (data (pool_after strs)) \<le> length (data (pool_after (strs @ [s])))"
    by (simp add: pool_after_snoc data_add_mono)
  with snoc.prems have l: "length (data (pool_after strs)) < 2 ^ 32" by simp
  with snoc.IH have "pool_inv (pool_after strs)" by simp
  with l show ?case by (simp add: pool_after_snoc pool_inv_add)
qed

lemma takeWhile_terminated:
  "NUL \<notin> set s \<Longrightarrow> take (length s + 1) xs = s @ [NUL] \<Longrightarrow> takeWhile (\<lambda>c. c \<noteq> NUL) xs = s"
proof -
  assume n: "NUL \<notin> set s" and t: "take (length s + 1) xs = s @ [NUL]"
  have "xs = take (length s + 1) xs @ drop (length s + 1) xs" by simp
  with t have "xs = s @ NUL # drop (length s + 1) xs" by simp
  then obtain r where "xs = s @ NUL # r" ..
  with n show ?thesis by (auto simp: takeWhile_tail)
qed

lemma in_bounds_of_take:
  "take (length s + 1) (drop n xs) = s @ [NUL] \<Longrightarrow> n < length xs"
  by (cases "n < length xs") auto

text \<open>
  C5, as amended.  In a pool reached from the empty pool whose buffer holds fewer than
  \<open>2 ^ 32\<close> bytes, interning a string \<open>s\<close> without terminator byte and looking the returned
  offset up gives \<open>s\<close> back.
\<close>

theorem getStringAt_add_roundtrip:
  assumes "length (data (pool_after strs)) < 2 ^ 32" and "NUL \<notin> set s"
  shows "getStringAt (snd (add s (pool_after strs))) (fst (add s (pool_after strs))) = s"
proof -
  let ?p = "pool_after strs"
  let ?q = "snd (add s ?p)"
  let ?off = "fst (add s ?p)"
  have "pool_inv ?p" using assms(1) by (rule pool_inv_after)
  then have inv: "pool_inv ?q" using assms(1) by (rule pool_inv_add)
  have "offsets ?q s = Some ?off"
    by (cases "offsets ?p s") (simp_all add: add_def Let_def)
  with inv have t: "take (length s + 1) (drop (unat ?off) (data ?q)) = s @ [NUL]"
    by (simp add: pool_inv_def)
  then have "unat ?off < length (data ?q)" by (rule in_bounds_of_take)
  moreover have "takeWhile (\<lambda>c. c \<noteq> NUL) (drop (unat ?off) (data ?q)) = s"
    using assms(2) t by (rule takeWhile_terminated)
  ultimately show ?thesis by (simp add: getStringAt_def)
qed

text \<open>
  Without the bound the round trip fails: in a buffer of \<open>2 ^ 32 + 1\<close> bytes the next
  string starts at byte \<open>2 ^ 32 + 1\<close>, the offset returned is that number narrowed to 32
  bits, which is \<open>1\<close>, and the lookup reads the string found there.
\<close>

lemma wrapped_offset_reads_other_string:
  assumes n: "3 \<le> n" and w: "(word_of_nat (Suc n) :: 32 word) = 1"
  shows "getStringAt (snd (add ''b'' (pool_after [replicate n CHR ''a''])))
           (fst (add ''b'' (pool_after [replicate n CHR ''a'']))) \<noteq> ''b''"
proof -
  let ?r = "replicate n CHR ''a''"
  let ?p = "pool_after [?r]"
  have p: "?p = \<lparr>data = ?r @ [NUL], offsets = [?r \<mapsto> 0]\<rparr>"
    by (simp add: pool_after_def add_def empty_pool_def)
  have "length ?r \<noteq> length ''b''" using n by simp
  then have ne: "''b'' \<noteq> ?r" by fastforce
  have a: "add ''b'' ?p = (1, \<lparr>data = ?r @ [NUL] @ ''b'' @ [NUL], offsets = [?r \<mapsto> 0, ''b'' \<mapsto> 1]\<rparr>)"
    using ne w by (simp add: p add_def Let_def)
  obtain m where m: "n = Suc m" using n by (cases n) auto
  have "takeWhile (\<lambda>c. c \<noteq> NUL) (drop 1 (?r @ [NUL] @ ''b'' @ [NUL])) = replicate m CHR ''a''"
    by (simp add: m takeWhile_tail)
  then have "getStringAt (snd (add ''b'' ?p)) (fst (add ''b'' ?p)) = replicate m CHR ''a''"
    by (simp add: a getStringAt_def)
  moreover have "length (replicate m CHR ''a'') \<noteq> length ''b''" using n m by simp
  ultimately show ?thesis by fastforce
qed

theorem getStringAt_add_roundtrip_counterexample:
  "getStringAt (snd (add ''b'' (pool_after [replicate 4294967296 CHR ''a''])))
     (fst (add ''b'' (pool_after [replicate 4294967296 CHR ''a'']))) \<noteq> ''b''"
  by (rule wrapped_offset_reads_other_string) simp_all

theorem getStringAt_add_roundtrip_witness:
  "length (data (pool_after [''int'', ''char''])) < 2 ^ 32 \<and> NUL \<notin> set ''x'' \<and>
   getStringAt (snd (add ''x'' (pool_after [''int'', ''char''])))
     (fst (add ''x'' (pool_after [''int'', ''char'']))) = ''x''"
proof -
  have h1: "length (data (pool_after [''int'', ''char''])) < 2 ^ 32"
    by (simp add: pool_after_def add_def empty_pool_def)
  have h2: "NUL \<notin> set ''x''" by simp
  show ?thesis using h1 h2 getStringAt_add_roundtrip [OF h1 h2] by simp
qed

lemma last_data_add:
  "data p = [] \<or> last (data p) = NUL \<Longrightarrow>
   data (snd (add s p)) = [] \<or> last (data (snd (add s p))) = NUL"
  by (cases "offsets p s") (simp_all add: add_def Let_def)

lemma last_data_pool_after:
  "data (pool_after strs) = [] \<or> last (data (pool_after strs)) = NUL"
proof (induction strs rule: rev_induct)
  case Nil
  show ?case by (simp add: pool_after_Nil empty_pool_def)
next
  case (snoc s strs)
  then show ?case unfolding pool_after_snoc by (rule last_data_add)
qed

lemma scan_stops_at_terminator:
  assumes "NUL \<in> set xs"
  shows "\<exists>k<length xs. xs ! k = NUL \<and> takeWhile (\<lambda>c. c \<noteq> NUL) xs = take k xs"
proof -
  let ?k = "length (takeWhile (\<lambda>c. c \<noteq> NUL) xs)"
  have "takeWhile (\<lambda>c. c \<noteq> NUL) xs \<noteq> xs"
    using assms by (auto simp: takeWhile_eq_all_conv)
  moreover have "?k \<le> length xs" by (rule length_takeWhile_le)
  ultimately have lt: "?k < length xs"
    by (metis takeWhile_eq_take le_neq_implies_less take_all order_refl)
  then have "xs ! ?k = NUL" using nth_length_takeWhile [of "\<lambda>c. c \<noteq> NUL" xs] by simp
  moreover have "takeWhile (\<lambda>c. c \<noteq> NUL) xs = take ?k xs" by (rule takeWhile_eq_take)
  ultimately show ?thesis using lt by blast
qed

text \<open>
  C10. A string appended to the pool is followed by one terminator byte, so the buffer of
  a pool reached from the empty pool, once something was appended, ends with a
  terminator; the scan of \<^verbatim>\<open>getStringAt\<close> from an in-bounds offset therefore stops at a
  terminator that lies inside the buffer; and an offset equal to the size of the buffer is
  out of bounds and yields the empty string.
\<close>

theorem pool_buffer_terminated:
  "(offsets p s = None \<longrightarrow> data (snd (add s p)) = data p @ s @ [NUL]) \<and>
   (data (pool_after strs) = [] \<or> last (data (pool_after strs)) = NUL) \<and>
   (unat off < length (data (pool_after strs)) \<longrightarrow>
      (\<exists>k. unat off + k < length (data (pool_after strs)) \<and>
           data (pool_after strs) ! (unat off + k) = NUL \<and>
           getStringAt (pool_after strs) off = take k (drop (unat off) (data (pool_after strs))))) \<and>
   (unat off = length (data (pool_after strs)) \<longrightarrow> getStringAt (pool_after strs) off = [])"
proof (intro conjI impI)
  assume "offsets p s = None"
  then show "data (snd (add s p)) = data p @ s @ [NUL]"
    by (simp add: add_def Let_def)
next
  show "data (pool_after strs) = [] \<or> last (data (pool_after strs)) = NUL"
    by (rule last_data_pool_after)
next
  let ?d = "data (pool_after strs)"
  assume b: "unat off < length ?d"
  then have ne: "drop (unat off) ?d \<noteq> []" by simp
  from b have "?d \<noteq> []" by auto
  with last_data_pool_after [of strs] have "last ?d = NUL" by simp
  with b have "last (drop (unat off) ?d) = NUL" by simp
  with ne have "NUL \<in> set (drop (unat off) ?d)" by (metis last_in_set)
  then obtain k where k: "k < length (drop (unat off) ?d)" "drop (unat off) ?d ! k = NUL"
      "takeWhile (\<lambda>c. c \<noteq> NUL) (drop (unat off) ?d) = take k (drop (unat off) ?d)"
    using scan_stops_at_terminator by blast
  from k(1) have "unat off + k < length ?d" by simp
  moreover from k(2) b have "?d ! (unat off + k) = NUL" by simp
  moreover from k(3) b have "getStringAt (pool_after strs) off = take k (drop (unat off) ?d)"
    by (simp add: getStringAt_def)
  ultimately show "\<exists>k. unat off + k < length ?d \<and> ?d ! (unat off + k) = NUL \<and>
      getStringAt (pool_after strs) off = take k (drop (unat off) ?d)" by blast
next
  assume "unat off = length (data (pool_after strs))"
  then show "getStringAt (pool_after strs) off = []" by (simp add: getStringAt_def)
qed

theorem pool_buffer_terminated_witness:
  "offsets empty_pool ''int'' = None \<and> data (snd (add ''int'' empty_pool)) = ''int'' @ [NUL] \<and>
   last (data (pool_after [''int'', ''char''])) = NUL \<and>
   unat (5 :: 32 word) < length (data (pool_after [''int'', ''char''])) \<and>
   getStringAt (pool_after [''int'', ''char'']) 5 = ''har'' \<and>
   unat (9 :: 32 word) = length (data (pool_after [''int'', ''char''])) \<and>
   getStringAt (pool_after [''int'', ''char'']) 9 = []"
  using pool_buffer_terminated [of empty_pool "''int''" "[''int'', ''char'']" 5]
    pool_buffer_terminated [of empty_pool "''int''" "[''int'', ''char'']" 9]
  by (simp add: pool_after_def add_def empty_pool_def getStringAt_def)


section \<open>Properties of the dump filter\<close>

lemma starts_with_iff: "starts_with s pat \<longleftrightarrow> (\<exists>v. s = pat @ v)"
  by (induction s pat rule: starts_with.induct) auto

lemma found_iff: "found s pat \<longleftrightarrow> (\<exists>u v. s = u @ pat @ v)"
proof (induction s)
  case Nil
  show ?case by auto
next
  case (Cons c cs)
  show ?case
  proof
    assume "found (c # cs) pat"
    then consider "starts_with (c # cs) pat" | "found cs pat" by auto
    then show "\<exists>u v. c # cs = u @ pat @ v"
    proof cases
      case 1
      then obtain v where "c # cs = pat @ v" by (auto simp: starts_with_iff)
      then have "c # cs = [] @ pat @ v" by simp
      then show ?thesis by blast
    next
      case 2
      with Cons.IH obtain u v where "cs = u @ pat @ v" by blast
      then have "c # cs = (c # u) @ pat @ v" by simp
      then show ?thesis by blast
    qed
  next
    assume "\<exists>u v. c # cs = u @ pat @ v"
    then obtain u v where e: "c # cs = u @ pat @ v" by blast
    show "found (c # cs) pat"
    proof (cases u)
      case Nil
      with e have "starts_with (c # cs) pat" by (auto simp: starts_with_iff)
      then show ?thesis by simp
    next
      case (Cons a u')
      with e have "cs = u' @ pat @ v" by simp
      with Cons.IH have "found cs pat" by blast
      then show ?thesis by simp
    qed
  qed
qed

lemma debug_line_header_is_section_header:
  "is_debug_line_header line \<Longrightarrow> is_section_header line"
proof -
  assume "is_debug_line_header line"
  then obtain u v where e: "line = u @ ''.debug_line contents:'' @ v"
    by (auto simp: is_debug_line_header_def found_iff)
  then have "line = u @ ''.debug_'' @ (''line contents:'' @ v)" by simp
  moreover from e have "line = (u @ ''.debug_line '') @ ''contents:'' @ v" by simp
  ultimately show ?thesis unfolding is_section_header_def found_iff by blast
qed

lemma omitted_from_0:
  "omitted_from b (l # rest) 0 \<longleftrightarrow> is_debug_line_header l \<or> (b \<and> \<not> is_section_header l)"
  by (auto simp: omitted_from_def omitted_def)

lemma all_le_Suc: "(\<forall>k\<le>Suc i. P k) \<longleftrightarrow> P 0 \<and> (\<forall>k\<le>i. P (Suc k))"
  by (metis Suc_le_mono le0 not0_implies_Suc)

lemma ex_le_Suc: "(\<exists>j\<le>Suc i. P j) \<longleftrightarrow> P 0 \<or> (\<exists>j\<le>i. P (Suc j))"
  by (metis Suc_le_mono le0 not0_implies_Suc)

lemma all_between_0: "(\<forall>k. 0 < k \<and> k \<le> Suc i \<longrightarrow> P k) \<longleftrightarrow> (\<forall>k\<le>i. P (Suc k))"
  by (metis Suc_le_mono zero_less_Suc gr0_implies_Suc)

lemma all_between_Suc:
  "(\<forall>k. Suc j < k \<and> k \<le> Suc i \<longrightarrow> P k) \<longleftrightarrow> (\<forall>k. j < k \<and> k \<le> i \<longrightarrow> P (Suc k))"
  by (metis Suc_le_mono Suc_less_eq Suc_lessE less_Suc_eq)

lemma omitted_from_Suc:
  "omitted_from b (l # rest) (Suc i) \<longleftrightarrow>
   omitted_from (is_debug_line_header l \<or> (b \<and> \<not> is_section_header l)) rest i"
  unfolding omitted_from_def omitted_def
  by (simp add: Ball_def Bex_def all_le_Suc ex_le_Suc all_between_0 all_between_Suc)
     (use debug_line_header_is_section_header in blast)

lemma kept_from_Cons:
  "map ((!) (l # rest)) (filter (\<lambda>i. \<not> omitted_from b (l # rest) i) [0..<length (l # rest)]) =
   (if omitted_from b (l # rest) 0 then [] else [l]) @
   map ((!) rest)
     (filter (\<lambda>i. \<not> omitted_from (is_debug_line_header l \<or> (b \<and> \<not> is_section_header l)) rest i)
        [0..<length rest])"
proof -
  have "[0..<length (l # rest)] = 0 # map Suc [0..<length rest]"
    by (simp add: upt_conv_Cons map_Suc_upt del: upt_Suc)
  then show ?thesis
    by (simp add: filter_map o_def omitted_from_Suc del: upt_Suc)
qed

lemma filter_loop_kept:
  "filter_loop b out ls =
   out @ concat (map (\<lambda>l. l @ [LF])
     (map ((!) ls) (filter (\<lambda>i. \<not> omitted_from b ls i) [0..<length ls])))"
proof (induction ls arbitrary: b out)
  case Nil
  show ?case by simp
next
  case (Cons l rest)
  let ?b' = "is_debug_line_header l \<or> (b \<and> \<not> is_section_header l)"
  have step: "filter_loop b out (l # rest) =
      filter_loop ?b' (if ?b' then out else out @ l @ [LF]) rest"
    using debug_line_header_is_section_header [of l]
    by (auto simp: is_debug_line_header_def is_section_header_def Let_def)
  show ?case
    unfolding step kept_from_Cons Cons.IH
    by (simp add: omitted_from_0)
qed

text \<open>
  C9. The bytes written to the output file are the lines of the dump that are not omitted,
  in their order, each followed by a line feed; a line is omitted exactly when it lies
  between a \<^verbatim>\<open>.debug_line contents:\<close> header (included) and the next section header line
  (excluded).
\<close>

theorem debug_line_filter_keeps_other_lines:
  "debug_line_filter dump = concat (map (\<lambda>l. l @ [LF]) (kept_lines (getlines dump)))"
  unfolding debug_line_filter_def kept_lines_def filter_loop_kept
  by (simp add: omitted_from_def)

theorem debug_line_filter_keeps_other_lines_witness:
  "debug_line_filter
     (''.debug_info contents:'' @ [LF] @ ''A'' @ [LF] @ ''.debug_line contents:'' @ [LF] @
      ''B'' @ [LF] @ ''.debug_str contents:'' @ [LF] @ ''C'') =
   ''.debug_info contents:'' @ [LF] @ ''A'' @ [LF] @ ''.debug_str contents:'' @ [LF] @ ''C'' @ [LF]"
proof -
  let ?dump = "''.debug_info contents:'' @ [LF] @ ''A'' @ [LF] @ ''.debug_line contents:'' @ [LF] @
      ''B'' @ [LF] @ ''.debug_str contents:'' @ [LF] @ ''C''"
  have "concat (map (\<lambda>l. l @ [LF]) (kept_lines (getlines ?dump))) =
      ''.debug_info contents:'' @ [LF] @ ''A'' @ [LF] @ ''.debug_str contents:'' @ [LF] @ ''C'' @ [LF]"
    by code_simp
  with debug_line_filter_keeps_other_lines [of ?dump] show ?thesis by simp
qed


section \<open>Properties of the dump writer\<close>

lemma printValue_appends_line:
  "printValue env stringPool st (replicate indent CHR '' '') OS V =
   OS @ attribute_line env stringPool st indent V"
  by (cases "getType V") (simp_all add: printValue_def attribute_line_def decoded_value_def Let_def)

lemma foldl_printValue:
  "foldl (printValue env stringPool st (replicate indent CHR '' '')) OS Vs =
   OS @ concat (map (attribute_line env stringPool st indent) Vs)"
  by (induction Vs arbitrary: OS) (simp_all add: printValue_appends_line)

lemma foldl_appending:
  "(\<And>c os. c \<in> set cs \<Longrightarrow> f os c = os @ f [] c) \<Longrightarrow>
   foldl f OS cs = OS @ concat (map (f []) cs)"
proof (induction cs arbitrary: OS)
  case Nil
  show ?case by simp
next
  case (Cons c cs)
  have head: "f OS c = OS @ f [] c"
    by (rule Cons.prems) simp
  have "foldl f (f OS c) cs = f OS c @ concat (map (f []) cs)"
    by (rule Cons.IH, rule Cons.prems) simp
  then show ?case
    by (simp add: head)
qed

lemma printDIE_unfold:
  "printDIE env stringPool st OS (DIE a t vs fc cs) indent =
   foldl (\<lambda>os child. printDIE env stringPool st os child (indent + 2))
     (OS @ header_line env st indent (DIE a t vs fc cs) @
      concat (map (attribute_line env stringPool st indent) vs)) cs @
   (if hasChildren (DIE a t vs fc cs) then closing_line indent else [])"
  by (simp add: Let_def foldl_printValue header_line_def closing_line_def)

lemma printDIE_appends:
  "printDIE env stringPool st OS die indent = OS @ printDIE env stringPool st [] die indent"
proof (induction die arbitrary: OS indent)
  case (DIE a t vs fc cs)
  let ?f = "\<lambda>os child. printDIE env stringPool st os child (indent + 2)"
  have step: "\<And>c os. c \<in> set cs \<Longrightarrow> ?f os c = os @ ?f [] c"
    by (rule DIE.IH)
  have children: "foldl ?f X cs = X @ concat (map (?f []) cs)" for X
    using step by (rule foldl_appending)
  show ?case
    unfolding printDIE_unfold children by simp
qed

lemma printDIE_lines:
  "printDIE env stringPool st OS die indent =
   OS @ header_line env st indent die @
   concat (map (attribute_line env stringPool st indent) (getValues die)) @
   concat (map (\<lambda>child. printDIE env stringPool st [] child (indent + 2)) (getChildren die)) @
   (if hasChildren die then closing_line indent else [])"
proof (cases die)
  case (DIE a t vs fc cs)
  have "foldl (\<lambda>os child. printDIE env stringPool st os child (indent + 2))
          (OS @ header_line env st indent die @
           concat (map (attribute_line env stringPool st indent) vs)) cs =
        (OS @ header_line env st indent die @
           concat (map (attribute_line env stringPool st indent) vs)) @
        concat (map (\<lambda>child. printDIE env stringPool st [] child (indent + 2)) cs)"
    by (rule foldl_appending) (rule printDIE_appends)
  then show ?thesis
    unfolding DIE printDIE_unfold by simp
qed

lemma hex_nonempty: "hex n \<noteq> []"
  by (subst hex.simps) simp

lemma length_hex: "n < 16 ^ k \<Longrightarrow> 0 < k \<Longrightarrow> length (hex n) \<le> k"
proof (induction n arbitrary: k rule: hex.induct)
  case (1 n)
  show ?case
  proof (cases "n < 16")
    case True
    with "1.prems" show ?thesis by (subst hex.simps) simp
  next
    case False
    obtain j where j: "k = Suc j" using "1.prems"(2) by (cases k) auto
    have "j \<noteq> 0" using False "1.prems"(1) j by (cases j) auto
    moreover have "n div 16 < 16 ^ j"
      using "1.prems"(1) j by (simp add: less_mult_imp_div_less mult.commute)
    ultimately have "length (hex (n div 16)) \<le> j"
      using "1.IH" [OF False, of j] by simp
    with False j show ?thesis by (subst hex.simps) simp
  qed
qed

lemma length_format_08x: "n < 2 ^ 32 \<Longrightarrow> length (format_08x n) = 8"
proof -
  assume "n < 2 ^ 32"
  then have "n < 16 ^ 8" by simp
  then have "length (hex n) \<le> 8" by (rule length_hex) simp
  then show ?thesis by (simp add: format_08x_def)
qed


section \<open>Properties of resolution\<close>

subsection \<open>Pass 1: abbreviation ids\<close>

lemma addrs_DIE [simp]: "addrs (DIE a t vs fc cs) = a # concat (map addrs cs)"
  by (induction cs) (simp_all add: addrs_def)

lemma index_of_append:
  "index_of x xs = Some i \<Longrightarrow> index_of x (xs @ ys) = Some i"
  by (induction xs arbitrary: i) (auto split: if_splits)

lemma index_of_snoc:
  "index_of x xs = None \<Longrightarrow> index_of x (xs @ [x]) = Some (length xs)"
  by (induction xs) (auto split: if_splits)

lemma extends_refl: "extends tbl tbl"
  by (simp add: extends_def)

lemma extends_trans: "extends t1 t2 \<Longrightarrow> extends t2 t3 \<Longrightarrow> extends t1 t3"
  by (auto simp: extends_def)

lemma id_in_extends:
  "extends tbl tbl' \<Longrightarrow> id_in tbl sh = Some n \<Longrightarrow> id_in tbl' sh = Some n"
  by (auto simp: extends_def id_in_def index_of_append)

lemma canonicalize_extends: "extends tbl (snd (canonicalize die tbl))"
  by (cases "index_of (shape_of die) (shapes tbl)") (simp_all add: canonicalize_def extends_def)

lemma canonicalize_id:
  "id_in (snd (canonicalize die tbl)) (shape_of die) = Some (fst (canonicalize die tbl))"
  by (cases "index_of (shape_of die) (shapes tbl)")
     (simp_all add: canonicalize_def id_in_def index_of_snoc)

lemma assign_abbrev_eq:
  "assign_abbrev (tbl, st) die =
   (snd (canonicalize die tbl),
    st\<lparr>AbbrevNumber := (AbbrevNumber st)(getAddr die := fst (canonicalize die tbl))\<rparr>)"
  by (simp add: assign_abbrev_def split: prod.split)

lemma abbrev_fold:
  assumes "foldl assign_abbrev (tbl, st) ds = (tbl', st')"
  shows "extends tbl tbl' \<and> Offset st' = Offset st \<and>
         (\<forall>a. a \<notin> getAddr ` set ds \<longrightarrow> AbbrevNumber st' a = AbbrevNumber st a) \<and>
         (distinct (map getAddr ds) \<longrightarrow>
            (\<forall>d \<in> set ds. id_in tbl' (shape_of d) = Some (AbbrevNumber st' (getAddr d))))"
  using assms
proof (induction ds arbitrary: tbl st)
  case Nil
  then show ?case by (simp add: extends_refl)
next
  case (Cons d ds)
  let ?t1 = "snd (canonicalize d tbl)"
  let ?s1 = "st\<lparr>AbbrevNumber := (AbbrevNumber st)(getAddr d := fst (canonicalize d tbl))\<rparr>"
  from Cons.prems have f: "foldl assign_abbrev (?t1, ?s1) ds = (tbl', st')"
    by (simp add: assign_abbrev_eq)
  note ih = Cons.IH [OF f]
  have e1: "extends tbl ?t1" by (rule canonicalize_extends)
  from ih have e2: "extends ?t1 tbl'" by simp
  have "extends tbl tbl'" using e1 e2 by (rule extends_trans)
  moreover have "Offset st' = Offset st" using ih by simp
  moreover have "\<forall>a. a \<notin> getAddr ` set (d # ds) \<longrightarrow> AbbrevNumber st' a = AbbrevNumber st a"
    using ih by auto
  moreover have "distinct (map getAddr (d # ds)) \<longrightarrow>
      (\<forall>x \<in> set (d # ds). id_in tbl' (shape_of x) = Some (AbbrevNumber st' (getAddr x)))"
  proof
    assume dist: "distinct (map getAddr (d # ds))"
    then have nd: "getAddr d \<notin> getAddr ` set ds" and dd: "distinct (map getAddr ds)" by auto
    from ih nd have "AbbrevNumber st' (getAddr d) = AbbrevNumber ?s1 (getAddr d)" by blast
    then have "AbbrevNumber st' (getAddr d) = fst (canonicalize d tbl)" by simp
    moreover have "id_in tbl' (shape_of d) = Some (fst (canonicalize d tbl))"
      using e2 canonicalize_id by (rule id_in_extends)
    ultimately have "id_in tbl' (shape_of d) = Some (AbbrevNumber st' (getAddr d))" by simp
    moreover from ih dd
    have "\<forall>x \<in> set ds. id_in tbl' (shape_of x) = Some (AbbrevNumber st' (getAddr x))" by blast
    ultimately show "\<forall>x \<in> set (d # ds). id_in tbl' (shape_of x) = Some (AbbrevNumber st' (getAddr x))"
      by simp
  qed
  ultimately show ?case by blast
qed

lemma abbrev_pass_shares:
  assumes "distinct (addrs root)" and "a \<in> set (preorder root)" and "b \<in> set (preorder root)"
    and "shape_of a = shape_of b"
  shows "AbbrevNumber (snd (abbrev_pass tbl st root)) (getAddr a) =
         AbbrevNumber (snd (abbrev_pass tbl st root)) (getAddr b)"
proof -
  obtain tbl' st' where r: "foldl assign_abbrev (tbl, st) (preorder root) = (tbl', st')"
    by (cases "foldl assign_abbrev (tbl, st) (preorder root)")
  from abbrev_fold [OF r] assms(1)
  have ids: "\<forall>d \<in> set (preorder root). id_in tbl' (shape_of d) = Some (AbbrevNumber st' (getAddr d))"
    by (simp add: addrs_def)
  from ids assms(2) have "id_in tbl' (shape_of a) = Some (AbbrevNumber st' (getAddr a))" by blast
  moreover from ids assms(3) have "id_in tbl' (shape_of b) = Some (AbbrevNumber st' (getAddr b))" by blast
  ultimately have "AbbrevNumber st' (getAddr a) = AbbrevNumber st' (getAddr b)"
    using assms(4) by simp
  then show ?thesis by (simp add: abbrev_pass_def r)
qed


subsection \<open>Pass 2: offsets\<close>

lemma uleb128_size_pos: "0 < uleb128_size n"
  by (subst uleb128_size.simps) simp

lemma offset_pass_DIE_Inr:
  assumes "offset_pass fp (DIE a t vs fc cs) (c, st) = Inr (c', st')"
  obtains vsize c2 where
    "values_size fp vs = Inr vsize"
    "offset_pass_children fp cs
       (c + uleb128_size (AbbrevNumber st a) + vsize, st\<lparr>Offset := (Offset st)(a := c)\<rparr>) =
     Inr (c2, st')"
    "c2 \<le> c'"
proof (cases "values_size fp vs")
  case (Inl e)
  with assms show ?thesis by simp
next
  case (Inr vsize)
  show ?thesis
  proof (cases "offset_pass_children fp cs
       (c + uleb128_size (AbbrevNumber st a) + vsize, st\<lparr>Offset := (Offset st)(a := c)\<rparr>)")
    case (Inl e)
    with assms Inr show ?thesis by simp
  next
    case (Inr r)
    obtain c2 s2 where r: "r = (c2, s2)" by (cases r)
    from assms \<open>values_size fp vs = Inr vsize\<close> Inr r
    have "s2 = st'" and "c2 \<le> c'" by (auto split: if_splits)
    with that [of vsize c2] \<open>values_size fp vs = Inr vsize\<close> Inr r show ?thesis by simp
  qed
qed

lemma offset_pass_children_Cons_Inr:
  assumes "offset_pass_children fp (x # xs) (c, st) = Inr (c', st')"
  obtains cm sm where
    "offset_pass fp x (c, st) = Inr (cm, sm)"
    "offset_pass_children fp xs (cm, sm) = Inr (c', st')"
proof (cases "offset_pass fp x (c, st)")
  case (Inl e)
  with assms show ?thesis by simp
next
  case (Inr r)
  obtain cm sm where "r = (cm, sm)" by (cases r)
  with assms Inr that [of cm sm] show ?thesis by simp
qed

lemma laid_out_Nil: "laid_out [] c st c st"
  by (simp add: laid_out_def)

lemma laid_out_append:
  assumes a: "laid_out as c st cm sm" and b: "laid_out bs cm sm c' st'"
  shows "laid_out (as @ bs) c st c' st'"
proof -
  from a have a1: "AbbrevNumber sm = AbbrevNumber st"
    and a2: "\<And>x. x \<notin> set as \<Longrightarrow> Offset sm x = Offset st x"
    and a3: "c \<le> cm"
    by (simp_all add: laid_out_def)
  from b have b1: "AbbrevNumber st' = AbbrevNumber sm"
    and b2: "\<And>x. x \<notin> set bs \<Longrightarrow> Offset st' x = Offset sm x"
    and b3: "cm \<le> c'"
    by (simp_all add: laid_out_def)
  have "distinct (as @ bs) \<longrightarrow>
      sorted_wrt (<) (map (Offset st') (as @ bs)) \<and>
      (\<forall>x \<in> set (as @ bs). c \<le> Offset st' x \<and> Offset st' x < c')"
  proof
    assume d: "distinct (as @ bs)"
    then have da: "distinct as" and db: "distinct bs" and dj: "set as \<inter> set bs = {}" by auto
    from a da have a4: "sorted_wrt (<) (map (Offset sm) as)"
      and a5: "\<And>x. x \<in> set as \<Longrightarrow> c \<le> Offset sm x \<and> Offset sm x < cm"
      by (simp_all add: laid_out_def)
    from b db have b4: "sorted_wrt (<) (map (Offset st') bs)"
      and b5: "\<And>x. x \<in> set bs \<Longrightarrow> cm \<le> Offset st' x \<and> Offset st' x < c'"
      by (simp_all add: laid_out_def)
    have keep: "\<And>x. x \<in> set as \<Longrightarrow> Offset st' x = Offset sm x"
      using b2 dj by blast
    then have m: "map (Offset st') as = map (Offset sm) as" by simp
    have s1: "sorted_wrt (<) (map (Offset st') as)" unfolding m by (rule a4)
    have cross: "\<forall>x \<in> set as. \<forall>y \<in> set bs. Offset st' x < Offset st' y"
    proof (intro ballI)
      fix x y assume "x \<in> set as" "y \<in> set bs"
      then have "Offset st' x < cm" and "cm \<le> Offset st' y"
        using a5 b5 keep by auto
      then show "Offset st' x < Offset st' y" by simp
    qed
    have bounds: "\<forall>x \<in> set (as @ bs). c \<le> Offset st' x \<and> Offset st' x < c'"
    proof
      fix x assume "x \<in> set (as @ bs)"
      then consider "x \<in> set as" | "x \<in> set bs" by auto
      then show "c \<le> Offset st' x \<and> Offset st' x < c'"
      proof cases
        case 1
        with a5 [of x] keep [of x] b3 show ?thesis by simp
      next
        case 2
        with b5 [of x] a3 show ?thesis by simp
      qed
    qed
    from s1 b4 cross have "sorted_wrt (<) (map (Offset st') (as @ bs))"
      by (simp add: sorted_wrt_append)
    with bounds show "sorted_wrt (<) (map (Offset st') (as @ bs)) \<and>
      (\<forall>x \<in> set (as @ bs). c \<le> Offset st' x \<and> Offset st' x < c')" by simp
  qed
  moreover have "AbbrevNumber st' = AbbrevNumber st" using a1 b1 by simp
  moreover have "\<forall>x. x \<notin> set (as @ bs) \<longrightarrow> Offset st' x = Offset st x"
    using a2 b2 by simp
  moreover have "c \<le> c'" using a3 b3 by simp
  ultimately show ?thesis unfolding laid_out_def by blast
qed

lemma laid_out_entry:
  assumes ch: "laid_out as c1 (st\<lparr>Offset := (Offset st)(a := c)\<rparr>) c2 st'"
    and "c < c1" and "c2 \<le> c'"
  shows "laid_out (a # as) c st c' st'"
proof -
  have "laid_out [a] c st c1 (st\<lparr>Offset := (Offset st)(a := c)\<rparr>)"
    using \<open>c < c1\<close> by (simp add: laid_out_def)
  from this ch have "laid_out ([a] @ as) c st c2 st'" by (rule laid_out_append)
  then show ?thesis using \<open>c2 \<le> c'\<close> by (auto simp: laid_out_def)
qed

lemma children_laid_out:
  assumes "\<And>x c st c' st'. x \<in> set cs \<Longrightarrow> offset_pass fp x (c, st) = Inr (c', st') \<Longrightarrow>
             laid_out (addrs x) c st c' st'"
    and "offset_pass_children fp cs (c, st) = Inr (c', st')"
  shows "laid_out (concat (map addrs cs)) c st c' st'"
  using assms
proof (induction cs arbitrary: c st)
  case Nil
  then show ?case by (simp add: laid_out_Nil)
next
  case (Cons x xs)
  from Cons.prems(2) obtain cm sm where
    first: "offset_pass fp x (c, st) = Inr (cm, sm)" and
    rest: "offset_pass_children fp xs (cm, sm) = Inr (c', st')"
    by (rule offset_pass_children_Cons_Inr)
  have "laid_out (addrs x) c st cm sm"
    using first by (intro Cons.prems(1)) simp_all
  moreover have "laid_out (concat (map addrs xs)) cm sm c' st'"
    using rest by (intro Cons.IH Cons.prems(1)) simp_all
  ultimately show ?case by (simp add: laid_out_append)
qed

lemma entry_laid_out:
  "offset_pass fp d (c, st) = Inr (c', st') \<Longrightarrow> laid_out (addrs d) c st c' st'"
proof (induction d arbitrary: c st c' st')
  case (DIE a t vs fc cs)
  from DIE.prems obtain vsize c2 where
    run: "offset_pass_children fp cs
       (c + uleb128_size (AbbrevNumber st a) + vsize, st\<lparr>Offset := (Offset st)(a := c)\<rparr>) =
     Inr (c2, st')" and le: "c2 \<le> c'"
    by (rule offset_pass_DIE_Inr)
  have "laid_out (concat (map addrs cs)) (c + uleb128_size (AbbrevNumber st a) + vsize)
      (st\<lparr>Offset := (Offset st)(a := c)\<rparr>) c2 st'"
    using DIE.IH run by (rule children_laid_out)
  moreover have "c < c + uleb128_size (AbbrevNumber st a) + vsize"
    using uleb128_size_pos [of "AbbrevNumber st a"] by simp
  ultimately show ?case
    unfolding addrs_DIE using le by (rule laid_out_entry)
qed

lemma own_offset:
  assumes "offset_pass fp d (c, st) = Inr (c', st')" and "distinct (addrs d)"
  shows "Offset st' (getAddr d) = c"
proof (cases d)
  case (DIE a t vs fc cs)
  from assms(1) [unfolded DIE] obtain vsize c2 where
    run: "offset_pass_children fp cs
       (c + uleb128_size (AbbrevNumber st a) + vsize, st\<lparr>Offset := (Offset st)(a := c)\<rparr>) =
     Inr (c2, st')"
    by (rule offset_pass_DIE_Inr)
  have "laid_out (concat (map addrs cs)) (c + uleb128_size (AbbrevNumber st a) + vsize)
      (st\<lparr>Offset := (Offset st)(a := c)\<rparr>) c2 st'"
    using entry_laid_out run by (rule children_laid_out)
  moreover from assms(2) DIE have "a \<notin> set (concat (map addrs cs))" by simp
  ultimately have "Offset st' a = Offset (st\<lparr>Offset := (Offset st)(a := c)\<rparr>) a"
    unfolding laid_out_def by blast
  then show ?thesis by (simp add: DIE)
qed


subsection \<open>The traversal order and the resolved store\<close>

lemma self_in_preorder: "d \<in> set (preorder d)"
  by (cases d) simp

lemma sorted_wrt_concat_member:
  "sorted_wrt R (concat xss) \<Longrightarrow> xs \<in> set xss \<Longrightarrow> sorted_wrt R xs"
  by (induction xss) (auto simp: sorted_wrt_append)

lemma sorted_wrt_subtree_roots:
  "sorted_wrt R (concat (map preorder cs)) \<Longrightarrow> sorted_wrt R cs"
proof (induction cs)
  case Nil
  show ?case by simp
next
  case (Cons c cs)
  from Cons.prems have cross: "\<forall>x \<in> set (preorder c). \<forall>y \<in> set (concat (map preorder cs)). R x y"
    and rest: "sorted_wrt R (concat (map preorder cs))"
    by (simp_all add: sorted_wrt_append)
  have "\<forall>y \<in> set cs. R c y"
  proof
    fix y assume "y \<in> set cs"
    then have "y \<in> set (concat (map preorder cs))"
      using self_in_preorder [of y] by auto
    with cross self_in_preorder [of c] show "R c y" by blast
  qed
  with Cons.IH [OF rest] show ?case by simp
qed

lemma sorted_preorder_parts:
  "sorted_wrt R (preorder d) \<Longrightarrow> p \<in> set (preorder d) \<Longrightarrow>
   sorted_wrt R (getChildren p) \<and> (\<forall>x \<in> set (descendants p). R p x)"
proof (induction d arbitrary: p)
  case (DIE a t vs fc cs)
  from DIE.prems(1) have top: "\<forall>x \<in> set (concat (map preorder cs)). R (DIE a t vs fc cs) x"
    and sub: "sorted_wrt R (concat (map preorder cs))"
    by simp_all
  from DIE.prems(2) consider "p = DIE a t vs fc cs" | c where "c \<in> set cs" "p \<in> set (preorder c)"
    by auto
  then show ?case
  proof cases
    case 1
    from sub have "sorted_wrt R cs" by (rule sorted_wrt_subtree_roots)
    with top 1 show ?thesis by (simp add: descendants_def)
  next
    case 2
    from 2(1) have "preorder c \<in> set (map preorder cs)" by simp
    with sub have "sorted_wrt R (preorder c)" by (rule sorted_wrt_concat_member)
    with 2(1) show ?thesis using 2(2) by (rule DIE.IH)
  qed
qed

lemma resolve_Inr:
  assumes "resolve fp tbl base root st0 = Inr st"
  obtains c' where
    "\<not> dangling root"
    "offset_pass fp root (base, snd (abbrev_pass tbl st0 root)) = Inr (c', st)"
proof (cases "dangling root")
  case True
  with assms show ?thesis by (simp add: resolve_def)
next
  case False
  show ?thesis
  proof (cases "offset_pass fp root (base, snd (abbrev_pass tbl st0 root))")
    case (Inl e)
    with assms False show ?thesis by (simp add: resolve_def)
  next
    case (Inr r)
    obtain c' s where "r = (c', s)" by (cases r)
    with assms False Inr that [of c'] show ?thesis by (simp add: resolve_def)
  qed
qed

lemma resolve_abbrevs:
  assumes "resolve fp tbl base root st0 = Inr st"
  shows "AbbrevNumber st = AbbrevNumber (snd (abbrev_pass tbl st0 root))"
proof -
  from assms obtain c' where
    "offset_pass fp root (base, snd (abbrev_pass tbl st0 root)) = Inr (c', st)"
    by (rule resolve_Inr)
  then have "laid_out (addrs root) base (snd (abbrev_pass tbl st0 root)) c' st"
    by (rule entry_laid_out)
  then show ?thesis by (simp add: laid_out_def)
qed

lemma resolve_sorted:
  assumes "resolve fp tbl base root st0 = Inr st" and "distinct (addrs root)"
  shows "sorted_wrt (\<lambda>x y. getOffset st x < getOffset st y) (preorder root)"
proof -
  from assms(1) obtain c' where
    "offset_pass fp root (base, snd (abbrev_pass tbl st0 root)) = Inr (c', st)"
    by (rule resolve_Inr)
  then have "laid_out (addrs root) base (snd (abbrev_pass tbl st0 root)) c' st"
    by (rule entry_laid_out)
  with assms(2) have "sorted_wrt (<) (map (Offset st) (addrs root))"
    by (simp add: laid_out_def)
  then show ?thesis
    by (simp add: addrs_def sorted_wrt_map getOffset_def)
qed

lemma resolve_offsets_inj:
  assumes "resolve fp tbl base root st0 = Inr st" and "distinct (addrs root)"
    and "x \<in> set (preorder root)" and "y \<in> set (preorder root)"
    and "getOffset st x = getOffset st y"
  shows "x = y"
proof -
  from assms(1,2) have "sorted_wrt (\<lambda>x y. getOffset st x < getOffset st y) (preorder root)"
    by (rule resolve_sorted)
  then have "sorted_wrt (<) (map (getOffset st) (preorder root))"
    by (simp add: sorted_wrt_map)
  then have "distinct (map (getOffset st) (preorder root))"
    by (simp add: strict_sorted_iff)
  then have "inj_on (getOffset st) (set (preorder root))"
    by (simp add: distinct_map)
  then show ?thesis using assms(3-5) by (auto dest: inj_onD)
qed


subsection \<open>Independence of the store before\<close>

lemma abbrev_fold_independent:
  assumes "same_abbrevs S st st'"
  shows "fst (foldl assign_abbrev (tbl, st) ds) = fst (foldl assign_abbrev (tbl, st') ds) \<and>
         same_abbrevs (S \<union> getAddr ` set ds)
           (snd (foldl assign_abbrev (tbl, st) ds)) (snd (foldl assign_abbrev (tbl, st') ds))"
  using assms
proof (induction ds arbitrary: tbl st st' S)
  case Nil
  then show ?case by simp
next
  case (Cons d ds)
  let ?n = "fst (canonicalize d tbl)"
  let ?s = "st\<lparr>AbbrevNumber := (AbbrevNumber st)(getAddr d := ?n)\<rparr>"
  let ?s' = "st'\<lparr>AbbrevNumber := (AbbrevNumber st')(getAddr d := ?n)\<rparr>"
  from Cons.prems have "same_abbrevs (insert (getAddr d) S) ?s ?s'"
    by (simp add: same_abbrevs_def)
  from Cons.IH [OF this, of "snd (canonicalize d tbl)"]
  show ?case by (simp add: assign_abbrev_eq Un_commute)
qed

lemma abbrev_pass_independent:
  "same_abbrevs (set (addrs root)) (snd (abbrev_pass tbl st root)) (snd (abbrev_pass tbl st' root))"
proof -
  have "same_abbrevs {} st st'" by (simp add: same_abbrevs_def)
  from abbrev_fold_independent [OF this, of tbl "preorder root"]
  show ?thesis by (simp add: abbrev_pass_def addrs_def)
qed

lemma same_resultI_Inl: "r = Inl e \<Longrightarrow> r' = Inl e \<Longrightarrow> same_result S r r'"
  by (simp add: same_result_def)

lemma same_resultI_Inr:
  "r = Inr (c, s) \<Longrightarrow> r' = Inr (c, s') \<Longrightarrow> same_offsets S s s' \<Longrightarrow> same_result S r r'"
  by (simp add: same_result_def)

lemma same_result_cases:
  assumes "same_result S r r'"
  obtains e where "r = Inl e" "r' = Inl e"
  | c s s' where "r = Inr (c, s)" "r' = Inr (c, s')" "same_offsets S s s'"
proof (cases r)
  case (Inl e)
  with assms that(1) show ?thesis by (simp add: same_result_def)
next
  case (Inr p)
  obtain c s where "p = (c, s)" by (cases p)
  with assms Inr that(2) show ?thesis by (auto simp: same_result_def)
qed

lemma children_independent:
  assumes each: "\<And>x c st st'. x \<in> set cs \<Longrightarrow> same_abbrevs (set (addrs x)) st st' \<Longrightarrow>
      same_result (set (addrs x)) (offset_pass fp x (c, st)) (offset_pass fp x (c, st'))"
    and ab: "same_abbrevs (set (concat (map addrs cs))) st st'"
  shows "same_result (set (concat (map addrs cs)))
           (offset_pass_children fp cs (c, st)) (offset_pass_children fp cs (c, st'))"
  using each ab
proof (induction cs arbitrary: c st st')
  case Nil
  show ?case by (simp add: same_result_def same_offsets_def)
next
  case (Cons x xs)
  from Cons.prems(2) have abx: "same_abbrevs (set (addrs x)) st st'"
    and abxs: "same_abbrevs (set (concat (map addrs xs))) st st'"
    by (simp_all add: same_abbrevs_def)
  have "same_result (set (addrs x)) (offset_pass fp x (c, st)) (offset_pass fp x (c, st'))"
    using abx by (intro Cons.prems(1)) simp_all
  then show ?case
  proof (cases rule: same_result_cases)
    case (1 e)
    then show ?thesis by (simp add: same_result_def)
  next
    case (2 cm sm sm')
    have lx: "laid_out (addrs x) c st cm sm" using 2(1) by (rule entry_laid_out)
    have lx': "laid_out (addrs x) c st' cm sm'" using 2(2) by (rule entry_laid_out)
    from lx lx' abxs have "same_abbrevs (set (concat (map addrs xs))) sm sm'"
      by (simp add: laid_out_def same_abbrevs_def)
    then have "same_result (set (concat (map addrs xs)))
        (offset_pass_children fp xs (cm, sm)) (offset_pass_children fp xs (cm, sm'))"
      by (intro Cons.IH Cons.prems(1)) simp_all
    then show ?thesis
    proof (cases rule: same_result_cases)
      case (1 e)
      with 2 show ?thesis by (simp add: same_result_def)
    next
      case inner: (2 c2 s2 s2')
      have lr: "laid_out (concat (map addrs xs)) cm sm c2 s2"
        using entry_laid_out inner(1) by (rule children_laid_out)
      have lr': "laid_out (concat (map addrs xs)) cm sm' c2 s2'"
        using entry_laid_out inner(2) by (rule children_laid_out)
      have "same_offsets (set (concat (map addrs (x # xs)))) s2 s2'"
        unfolding same_offsets_def
      proof
        fix a assume "a \<in> set (concat (map addrs (x # xs)))"
        show "Offset s2 a = Offset s2' a"
        proof (cases "a \<in> set (concat (map addrs xs))")
          case True
          with inner(3) show ?thesis unfolding same_offsets_def by blast
        next
          case False
          with \<open>a \<in> set (concat (map addrs (x # xs)))\<close> have ax: "a \<in> set (addrs x)" by simp
          from lr False have "Offset s2 a = Offset sm a" by (simp add: laid_out_def)
          moreover from lr' False have "Offset s2' a = Offset sm' a" by (simp add: laid_out_def)
          moreover from 2(3) ax have "Offset sm a = Offset sm' a" by (simp add: same_offsets_def)
          ultimately show ?thesis by simp
        qed
      qed
      moreover have "offset_pass_children fp (x # xs) (c, st) = Inr (c2, s2)"
        using 2(1) inner(1) by simp
      moreover have "offset_pass_children fp (x # xs) (c, st') = Inr (c2, s2')"
        using 2(2) inner(2) by simp
      ultimately show ?thesis by (intro same_resultI_Inr)
    qed
  qed
qed

lemma entry_independent:
  "same_abbrevs (set (addrs d)) st st' \<Longrightarrow>
   same_result (set (addrs d)) (offset_pass fp d (c, st)) (offset_pass fp d (c, st'))"
proof (induction d arbitrary: c st st')
  case (DIE a t vs fc cs)
  let ?s1 = "st\<lparr>Offset := (Offset st)(a := c)\<rparr>"
  let ?s1' = "st'\<lparr>Offset := (Offset st')(a := c)\<rparr>"
  from DIE.prems have aa: "AbbrevNumber st a = AbbrevNumber st' a"
    and abcs: "same_abbrevs (set (concat (map addrs cs))) ?s1 ?s1'"
    by (simp_all add: same_abbrevs_def)
  show ?case
  proof (cases "values_size fp vs")
    case (Inl e)
    then show ?thesis by (simp add: same_result_def)
  next
    case (Inr vsize)
    let ?c1 = "c + uleb128_size (AbbrevNumber st a) + vsize"
    have "same_result (set (concat (map addrs cs)))
        (offset_pass_children fp cs (?c1, ?s1)) (offset_pass_children fp cs (?c1, ?s1'))"
      using DIE.IH abcs by (rule children_independent)
    then show ?thesis
    proof (cases rule: same_result_cases)
      case (1 e)
      with Inr aa show ?thesis by (simp add: same_result_def)
    next
      case (2 c2 s2 s2')
      have lr: "laid_out (concat (map addrs cs)) ?c1 ?s1 c2 s2"
        using entry_laid_out 2(1) by (rule children_laid_out)
      have lr': "laid_out (concat (map addrs cs)) ?c1 ?s1' c2 s2'"
        using entry_laid_out 2(2) by (rule children_laid_out)
      have "same_offsets (set (addrs (DIE a t vs fc cs))) s2 s2'"
        unfolding same_offsets_def
      proof
        fix x assume x: "x \<in> set (addrs (DIE a t vs fc cs))"
        show "Offset s2 x = Offset s2' x"
        proof (cases "x \<in> set (concat (map addrs cs))")
          case True
          with 2(3) show ?thesis unfolding same_offsets_def by blast
        next
          case False
          with x have "x = a" by simp
          moreover from lr False have "Offset s2 x = Offset ?s1 x" by (simp add: laid_out_def)
          moreover from lr' False have "Offset s2' x = Offset ?s1' x" by (simp add: laid_out_def)
          ultimately show ?thesis by simp
        qed
      qed
      moreover have "offset_pass fp (DIE a t vs fc cs) (c, st) =
          Inr (if hasChildren (DIE a t vs fc cs) then c2 + 1 else c2, s2)"
        using Inr 2(1) by simp
      moreover have "offset_pass fp (DIE a t vs fc cs) (c, st') =
          Inr (if hasChildren (DIE a t vs fc cs) then c2 + 1 else c2, s2')"
        using Inr 2(2) aa by simp
      ultimately show ?thesis by (intro same_resultI_Inr)
    qed
  qed
qed

lemma triples_cong:
  "same_abbrevs (set (addrs root)) s s' \<Longrightarrow> same_offsets (set (addrs root)) s s' \<Longrightarrow>
   triples s root = triples s' root"
  by (simp add: triples_def same_abbrevs_def same_offsets_def addrs_def
      getOffset_def getAbbrevNumber_def)


subsection \<open>Resolution of the two example trees\<close>

lemma uleb128_size_small: "n < 128 \<Longrightarrow> uleb128_size n = 1"
  by (subst uleb128_size.simps) simp

lemma main_not_dangling: "\<not> dangling cu"
  by (simp add: dangling_def addrs_def main_tree_defs)

lemma main_abbrev_pass:
  "snd (abbrev_pass (fresh_table 1) unresolved cu) =
   \<lparr>Offset = (\<lambda>a. 0),
    AbbrevNumber = (\<lambda>a. 0)(0 := 1, 1 := 2, 2 := 2, 3 := 3, 4 := 4, 5 := 5, 6 := 5, 7 := 5)\<rparr>"
  by (simp add: abbrev_pass_def assign_abbrev_def canonicalize_def shape_of_def hasChildren_def
      main_tree_defs fresh_table_def unresolved_def dwarf_constants)
     (simp add: eval_nat_numeral)

lemma main_offset_pass:
  "offset_pass formParams cu (11, \<lparr>Offset = (\<lambda>a. 0),
    AbbrevNumber = (\<lambda>a. 0)(0 := 1, 1 := 2, 2 := 2, 3 := 3, 4 := 4, 5 := 5, 6 := 5, 7 := 5)\<rparr>) =
   Inr (76, main_resolved)"
  by (simp add: main_tree_defs main_resolved_def value_size_def fixed_width_def formParams_def
      hasChildren_def uleb128_size_small dwarf_constants)

lemma main_resolve: "resolve formParams (fresh_table 1) 11 cu unresolved = Inr main_resolved"
  unfolding resolve_def main_abbrev_pass main_offset_pass
  by (simp add: main_not_dangling)

lemma main_distinct: "distinct (addrs cu)"
  by (simp add: addrs_def main_tree_defs)

lemma main_preorder:
  "preorder cu =
   [cu, intType, charType, charPtrType, classType, memberX, memberY, memberName]"
  by (simp add: main_tree_defs)

lemma main_triples:
  "triples main_resolved cu =
   [(DW_TAG_compile_unit, 1, 11), (DW_TAG_base_type, 2, 18), (DW_TAG_base_type, 2, 25),
    (DW_TAG_pointer_type, 3, 32), (DW_TAG_structure_type, 4, 38), (DW_TAG_member, 5, 44),
    (DW_TAG_member, 5, 54), (DW_TAG_member, 5, 64)]"
  unfolding triples_def main_preorder
  by (simp add: main_tree_defs main_resolved_def getOffset_def getAbbrevNumber_def)

lemma ref_not_dangling: "\<not> dangling ref_tree"
  by (simp add: dangling_def addrs_def ref_tree_defs)

lemma ref_abbrev_pass:
  "snd (abbrev_pass (fresh_table 1) unresolved ref_tree) =
   \<lparr>Offset = (\<lambda>a. 0), AbbrevNumber = (\<lambda>a. 0)(10 := 1, 11 := 2, 12 := 3, 13 := 3)\<rparr>"
  by (simp add: abbrev_pass_def assign_abbrev_def canonicalize_def shape_of_def hasChildren_def
      ref_tree_defs fresh_table_def unresolved_def dwarf_constants)
     (simp add: eval_nat_numeral)

lemma ref_offset_pass:
  "offset_pass formParams ref_tree (0, \<lparr>Offset = (\<lambda>a. 0),
    AbbrevNumber = (\<lambda>a. 0)(10 := 1, 11 := 2, 12 := 3, 13 := 3)\<rparr>) =
   Inr (17, ref_resolved)"
  by (simp add: ref_tree_defs ref_resolved_def value_size_def fixed_width_def formParams_def
      hasChildren_def uleb128_size_small dwarf_constants)

lemma ref_resolve: "resolve formParams (fresh_table 1) 0 ref_tree unresolved = Inr ref_resolved"
  unfolding resolve_def ref_abbrev_pass ref_offset_pass
  by (simp add: ref_not_dangling)

lemma ref_distinct: "distinct (addrs ref_tree)"
  by (simp add: addrs_def ref_tree_defs)

lemma ref_preorder: "preorder ref_tree = [ref_tree, ref_first, ref_second, ref_third]"
  by (simp add: ref_tree_defs)


subsection \<open>Abbreviation sharing, offset order, references\<close>

text \<open>
  C1. Two entries of the resolved tree with the same tag, the same has-children flag and
  the same ordered list of (attribute kind, form) pairs have the same abbreviation id,
  whatever their values and children.  The entries of a tree are distinct objects: their
  addresses are distinct.
\<close>

theorem same_shape_same_abbrev:
  assumes "resolve fp tbl base root st0 = Inr st"
    and "distinct (addrs root)"
    and "a \<in> set (preorder root)" and "b \<in> set (preorder root)"
    and "getTag a = getTag b"
    and "hasChildren a = hasChildren b"
    and "map (\<lambda>V. (getAttribute V, getForm V)) (getValues a) =
         map (\<lambda>V. (getAttribute V, getForm V)) (getValues b)"
  shows "getAbbrevNumber st a = getAbbrevNumber st b"
proof -
  have "shape_of a = shape_of b"
    using assms(5-7) by (simp add: shape_of_def)
  with assms(2-4) have
    "AbbrevNumber (snd (abbrev_pass tbl st0 root)) (getAddr a) =
     AbbrevNumber (snd (abbrev_pass tbl st0 root)) (getAddr b)"
    by (rule abbrev_pass_shares)
  then show ?thesis
    by (simp add: getAbbrevNumber_def resolve_abbrevs [OF assms(1)])
qed

theorem same_shape_same_abbrev_witness:
  "resolve formParams (fresh_table 1) 11 cu unresolved = Inr main_resolved \<and>
   distinct (addrs cu) \<and> memberX \<in> set (preorder cu) \<and> memberY \<in> set (preorder cu) \<and>
   getTag memberX = getTag memberY \<and>
   hasChildren memberX = hasChildren memberY \<and>
   map (\<lambda>V. (getAttribute V, getForm V)) (getValues memberX) =
   map (\<lambda>V. (getAttribute V, getForm V)) (getValues memberY) \<and>
   getValues memberX \<noteq> getValues memberY \<and>
   getAbbrevNumber main_resolved memberX = getAbbrevNumber main_resolved memberY"
proof -
  have x: "memberX \<in> set (preorder cu)" and y: "memberY \<in> set (preorder cu)"
    by (simp_all add: main_preorder)
  have t: "getTag memberX = getTag memberY"
    and h: "hasChildren memberX = hasChildren memberY"
    and s: "map (\<lambda>V. (getAttribute V, getForm V)) (getValues memberX) =
            map (\<lambda>V. (getAttribute V, getForm V)) (getValues memberY)"
    and v: "getValues memberX \<noteq> getValues memberY"
    by (simp_all add: memberX_def memberY_def hasChildren_def)
  from same_shape_same_abbrev [OF main_resolve main_distinct x y t h s]
    main_resolve main_distinct x y t h s v
  show ?thesis by blast
qed

text \<open>
  C2. After resolution the offsets increase strictly along the pre-order traversal;
  within every parent the offsets of the children increase strictly from one sibling to
  the next, and the offset of every entry is below the offset of each of its descendants.
\<close>

theorem offsets_strictly_increasing:
  assumes "resolve fp tbl base root st0 = Inr st" and "distinct (addrs root)"
  shows "sorted_wrt (\<lambda>x y. getOffset st x < getOffset st y) (preorder root) \<and>
         (\<forall>p \<in> set (preorder root).
            sorted_wrt (\<lambda>x y. getOffset st x < getOffset st y) (getChildren p) \<and>
            (\<forall>d \<in> set (descendants p). getOffset st p < getOffset st d))"
proof -
  have s: "sorted_wrt (\<lambda>x y. getOffset st x < getOffset st y) (preorder root)"
    using assms by (rule resolve_sorted)
  moreover have "\<forall>p \<in> set (preorder root).
      sorted_wrt (\<lambda>x y. getOffset st x < getOffset st y) (getChildren p) \<and>
      (\<forall>d \<in> set (descendants p). getOffset st p < getOffset st d)"
  proof
    fix p assume "p \<in> set (preorder root)"
    with s show "sorted_wrt (\<lambda>x y. getOffset st x < getOffset st y) (getChildren p) \<and>
      (\<forall>d \<in> set (descendants p). getOffset st p < getOffset st d)"
      by (rule sorted_preorder_parts)
  qed
  ultimately show ?thesis by simp
qed

theorem offsets_strictly_increasing_witness:
  "resolve formParams (fresh_table 1) 11 cu unresolved = Inr main_resolved \<and>
   distinct (addrs cu) \<and>
   sorted_wrt (\<lambda>x y. getOffset main_resolved x < getOffset main_resolved y) (preorder cu) \<and>
   classType \<in> set (preorder cu) \<and>
   sorted_wrt (\<lambda>x y. getOffset main_resolved x < getOffset main_resolved y)
     (getChildren classType) \<and>
   memberName \<in> set (descendants cu) \<and>
   getOffset main_resolved cu < getOffset main_resolved memberName"
proof -
  note r = offsets_strictly_increasing [OF main_resolve main_distinct]
  have c: "classType \<in> set (preorder cu)" and u: "cu \<in> set (preorder cu)"
    by (simp_all add: main_preorder)
  have m: "memberName \<in> set (descendants cu)"
    by (simp add: descendants_def cu_def classType_def self_in_preorder)
  from r c have "sorted_wrt (\<lambda>x y. getOffset main_resolved x < getOffset main_resolved y)
     (getChildren classType)" by blast
  moreover from r u m have "getOffset main_resolved cu < getOffset main_resolved memberName"
    by blast
  ultimately show ?thesis using r c m main_resolve main_distinct by blast
qed

text \<open>
  C3. For an entry-reference value on an entry \<open>X\<close> of the resolved tree whose target is an
  entry \<open>Y\<close> of the same tree, the number that the dump writes in braces is the offset of
  \<open>Y\<close>, the one in the header line of \<open>Y\<close>, and no other entry of the tree has this offset.
  Nothing is assumed about where \<open>Y\<close> stands relative to \<open>X\<close>.
\<close>

theorem entry_ref_renders_target_offset:
  assumes "resolve fp tbl base root st0 = Inr st" and "distinct (addrs root)"
    and "X \<in> set (preorder root)" and "Y \<in> set (preorder root)"
    and "V \<in> set (getValues X)" and "getType V = isEntry (getAddr Y)"
  shows "printValue env stringPool st (replicate indent CHR '' '') OS V =
           OS @ replicate indent CHR '' '' @ ''  '' @ AttributeString env (getAttribute V) @
           '' = {0x'' @ format_08x (getOffset st Y) @ ''} ['' @
           FormEncodingString env (getForm V) @ '']'' @ [LF] \<and>
         (\<forall>Z \<in> set (preorder root). getOffset st Z = getOffset st Y \<longrightarrow> Z = Y)"
proof -
  have "printValue env stringPool st (replicate indent CHR '' '') OS V =
           OS @ replicate indent CHR '' '' @ ''  '' @ AttributeString env (getAttribute V) @
           '' = {0x'' @ format_08x (getOffset st Y) @ ''} ['' @
           FormEncodingString env (getForm V) @ '']'' @ [LF]"
    using assms(6) by (simp add: printValue_def getOffset_def)
  moreover have "\<forall>Z \<in> set (preorder root). getOffset st Z = getOffset st Y \<longrightarrow> Z = Y"
  proof (intro ballI impI)
    fix Z assume zin: "Z \<in> set (preorder root)" and zeq: "getOffset st Z = getOffset st Y"
    show "Z = Y" using assms(1,2) zin assms(4) zeq by (rule resolve_offsets_inj)
  qed
  ultimately show ?thesis by simp
qed

theorem entry_ref_renders_target_offset_witness:
  "resolve formParams (fresh_table 1) 0 ref_tree unresolved = Inr ref_resolved \<and>
   distinct (addrs ref_tree) \<and>
   ref_first \<in> set (preorder ref_tree) \<and> ref_second \<in> set (preorder ref_tree) \<and>
   ref_third \<in> set (preorder ref_tree) \<and>
   DIEValue DW_AT_type DW_FORM_ref4 (isEntry 12) \<in> set (getValues ref_first) \<and>
   DIEValue DW_AT_type DW_FORM_ref4 (isEntry 11) \<in> set (getValues ref_second) \<and>
   DIEValue DW_AT_type DW_FORM_ref4 (isEntry 13) \<in> set (getValues ref_third) \<and>
   getAddr ref_first = 11 \<and> getAddr ref_second = 12 \<and> getAddr ref_third = 13 \<and>
   printValue example_env main_pool ref_resolved (replicate 2 CHR '' '') []
     (DIEValue DW_AT_type DW_FORM_ref4 (isEntry 12)) =
     ''    DW_AT_type = {0x00000006} [DW_FORM_ref4]'' @ [LF] \<and>
   printValue example_env main_pool ref_resolved (replicate 2 CHR '' '') []
     (DIEValue DW_AT_type DW_FORM_ref4 (isEntry 11)) =
     ''    DW_AT_type = {0x00000001} [DW_FORM_ref4]'' @ [LF] \<and>
   printValue example_env main_pool ref_resolved (replicate 2 CHR '' '') []
     (DIEValue DW_AT_type DW_FORM_ref4 (isEntry 13)) =
     ''    DW_AT_type = {0x0000000b} [DW_FORM_ref4]'' @ [LF]"
proof -
  have i1: "ref_first \<in> set (preorder ref_tree)" and i2: "ref_second \<in> set (preorder ref_tree)"
    and i3: "ref_third \<in> set (preorder ref_tree)"
    by (simp_all add: ref_preorder)
  have v1: "DIEValue DW_AT_type DW_FORM_ref4 (isEntry 12) \<in> set (getValues ref_first)"
    and v2: "DIEValue DW_AT_type DW_FORM_ref4 (isEntry 11) \<in> set (getValues ref_second)"
    and v3: "DIEValue DW_AT_type DW_FORM_ref4 (isEntry 13) \<in> set (getValues ref_third)"
    by (simp_all add: ref_first_def ref_second_def ref_third_def)
  have a1: "getAddr ref_first = 11" and a2: "getAddr ref_second = 12"
    and a3: "getAddr ref_third = 13"
    by (simp_all add: ref_first_def ref_second_def ref_third_def)
  have t1: "getType (DIEValue DW_AT_type DW_FORM_ref4 (isEntry 12)) = isEntry (getAddr ref_second)"
    and t2: "getType (DIEValue DW_AT_type DW_FORM_ref4 (isEntry 11)) = isEntry (getAddr ref_first)"
    and t3: "getType (DIEValue DW_AT_type DW_FORM_ref4 (isEntry 13)) = isEntry (getAddr ref_third)"
    by (simp_all add: a1 a2 a3)
  have g: "getOffset ref_resolved ref_second = 6" "getOffset ref_resolved ref_first = 1"
    "getOffset ref_resolved ref_third = 11"
    by (simp_all add: getOffset_def a1 a2 a3 ref_resolved_def)
  have f: "format_08x 6 = ''00000006''" "format_08x 1 = ''00000001''"
    "format_08x 11 = ''0000000b''"
    by code_simp+
  note o = f [folded g]
  have n: "AttributeString example_env DW_AT_type = ''DW_AT_type''"
    "FormEncodingString example_env DW_FORM_ref4 = ''DW_FORM_ref4''"
    by (simp_all add: example_env_def example_AttributeString_def example_FormEncodingString_def
        dwarf_constants)
  note r = entry_ref_renders_target_offset [OF ref_resolve ref_distinct]
  from r [OF i1 i2 v1 t1, of example_env main_pool 2 "[]"]
  have p1: "printValue example_env main_pool ref_resolved (replicate 2 CHR '' '') []
     (DIEValue DW_AT_type DW_FORM_ref4 (isEntry 12)) =
     ''    DW_AT_type = {0x00000006} [DW_FORM_ref4]'' @ [LF]"
    by (simp add: o n numeral_2_eq_2)
  from r [OF i2 i1 v2 t2, of example_env main_pool 2 "[]"]
  have p2: "printValue example_env main_pool ref_resolved (replicate 2 CHR '' '') []
     (DIEValue DW_AT_type DW_FORM_ref4 (isEntry 11)) =
     ''    DW_AT_type = {0x00000001} [DW_FORM_ref4]'' @ [LF]"
    by (simp add: o n numeral_2_eq_2)
  from r [OF i3 i3 v3 t3, of example_env main_pool 2 "[]"]
  have p3: "printValue example_env main_pool ref_resolved (replicate 2 CHR '' '') []
     (DIEValue DW_AT_type DW_FORM_ref4 (isEntry 13)) =
     ''    DW_AT_type = {0x0000000b} [DW_FORM_ref4]'' @ [LF]"
    by (simp add: o n numeral_2_eq_2)
  from ref_resolve ref_distinct i1 i2 i3 v1 v2 v3 a1 a2 a3 p1 p2 p3
  show ?thesis by blast
qed

text \<open>
  C8. Resolution does not depend on what the offset and abbreviation fields of the entries
  held before: from any two stores, so also from the store a first run has left, with the
  same table, base offset and parameters, it fails with the same error or gives the same
  (tag, abbreviation id, offset) triples in traversal order.
\<close>

theorem resolve_deterministic:
  "map_sum id (\<lambda>s. triples s root) (resolve fp tbl base root st) =
   map_sum id (\<lambda>s. triples s root) (resolve fp tbl base root st')"
proof (cases "dangling root")
  case True
  then show ?thesis by (simp add: resolve_def)
next
  case False
  let ?s1 = "snd (abbrev_pass tbl st root)"
  let ?s1' = "snd (abbrev_pass tbl st' root)"
  have ab: "same_abbrevs (set (addrs root)) ?s1 ?s1'"
    by (rule abbrev_pass_independent)
  then have "same_result (set (addrs root))
      (offset_pass fp root (base, ?s1)) (offset_pass fp root (base, ?s1'))"
    by (rule entry_independent)
  then show ?thesis
  proof (cases rule: same_result_cases)
    case (1 e)
    with False show ?thesis by (simp add: resolve_def)
  next
    case (2 c s s')
    have "laid_out (addrs root) base ?s1 c s" using 2(1) by (rule entry_laid_out)
    moreover have "laid_out (addrs root) base ?s1' c s'" using 2(2) by (rule entry_laid_out)
    ultimately have "same_abbrevs (set (addrs root)) s s'"
      using ab by (simp add: laid_out_def same_abbrevs_def)
    then have "triples s root = triples s' root"
      using 2(3) by (rule triples_cong)
    with False 2 show ?thesis by (simp add: resolve_def)
  qed
qed

theorem resolve_deterministic_witness:
  "map_sum id (\<lambda>s. triples s cu) (resolve formParams (fresh_table 1) 11 cu unresolved) =
   Inr [(DW_TAG_compile_unit, 1, 11), (DW_TAG_base_type, 2, 18), (DW_TAG_base_type, 2, 25),
        (DW_TAG_pointer_type, 3, 32), (DW_TAG_structure_type, 4, 38), (DW_TAG_member, 5, 44),
        (DW_TAG_member, 5, 54), (DW_TAG_member, 5, 64)] \<and>
   map_sum id (\<lambda>s. triples s cu) (resolve formParams (fresh_table 1) 11 cu main_resolved) =
   Inr [(DW_TAG_compile_unit, 1, 11), (DW_TAG_base_type, 2, 18), (DW_TAG_base_type, 2, 25),
        (DW_TAG_pointer_type, 3, 32), (DW_TAG_structure_type, 4, 38), (DW_TAG_member, 5, 44),
        (DW_TAG_member, 5, 54), (DW_TAG_member, 5, 64)]"
proof -
  have first: "map_sum id (\<lambda>s. triples s cu) (resolve formParams (fresh_table 1) 11 cu unresolved) =
      Inr (triples main_resolved cu)"
    unfolding main_resolve by simp
  with resolve_deterministic [of cu formParams "fresh_table 1" 11 main_resolved unresolved]
  have "map_sum id (\<lambda>s. triples s cu) (resolve formParams (fresh_table 1) 11 cu main_resolved) =
      Inr (triples main_resolved cu)"
    by simp
  with first show ?thesis
    unfolding main_triples by simp
qed


subsection \<open>The rendering of an entry\<close>

text \<open>
  C7, as amended.  For every entry \<^verbatim>\<open>printDIE\<close> appends to the stream: one header line
  with the offset in hexadecimal padded to eight digits (exactly eight below \<open>2 ^ 32\<close>),
  the tag name and the abbreviation id; one line per value with the attribute name, the
  decoded value and the form name; each child rendered at the indent plus two; and the
  closing line if and only if the entry has children.  The decoded value goes by the kind
  of the value: for an integer, the quoted string-pool content with the offset if the
  form is \<^verbatim>\<open>DW_FORM_strp\<close>, else the encoding name if the attribute is
  \<^verbatim>\<open>DW_AT_encoding\<close>, else the value in hexadecimal; for an entry reference, the offset of
  the target in braces; for any other kind, the text \<^verbatim>\<open><unknown type>\<close>.
\<close>

theorem printDIE_renders_entry:
  "printDIE env stringPool st OS die indent =
     OS @ header_line env st indent die @
     concat (map (attribute_line env stringPool st indent) (getValues die)) @
     concat (map (\<lambda>child. printDIE env stringPool st [] child (indent + 2)) (getChildren die)) @
     (if hasChildren die then closing_line indent else []) \<and>
   (getOffset st die < 2 ^ 32 \<longrightarrow> length (format_08x (getOffset st die)) = 8)"
proof (intro conjI impI)
  show "printDIE env stringPool st OS die indent =
     OS @ header_line env st indent die @
     concat (map (attribute_line env stringPool st indent) (getValues die)) @
     concat (map (\<lambda>child. printDIE env stringPool st [] child (indent + 2)) (getChildren die)) @
     (if hasChildren die then closing_line indent else [])"
    by (rule printDIE_lines)
next
  assume "getOffset st die < 2 ^ 32"
  then show "length (format_08x (getOffset st die)) = 8"
    by (rule length_format_08x)
qed

lemma main_memberX_numbers:
  "format_08x 44 = ''0000002c''" "format_08x 18 = ''00000012''" "decimal 5 = ''5''"
  "format_08x_val example_env 23 = ''00000017''" "format_x_val example_env 0 = ''0''"
  "getStringAt main_pool 23 = ''x''"
  by code_simp+

lemma main_memberX_dump:
  "header_line example_env main_resolved 4 memberX @
   concat (map (attribute_line example_env main_pool main_resolved 4) (getValues memberX)) @
   concat (map (\<lambda>child. printDIE example_env main_pool main_resolved [] child (4 + 2))
     (getChildren memberX)) @
   (if hasChildren memberX then closing_line 4 else []) =
   ''    0x0000002c: DW_TAG_member [5]'' @ [LF] @
   ''      DW_AT_name = '' @ [CHR 0x22] @ ''x'' @ [CHR 0x22] @
     '' (strp offset: 0x00000017) [DW_FORM_strp]'' @ [LF] @
   ''      DW_AT_type = {0x00000012} [DW_FORM_ref4]'' @ [LF] @
   ''      DW_AT_data_member_location = 0x0 [DW_FORM_data1]'' @ [LF]"
proof -
  have n: "TagString example_env DW_TAG_member = ''DW_TAG_member''"
    "AttributeString example_env DW_AT_name = ''DW_AT_name''"
    "AttributeString example_env DW_AT_type = ''DW_AT_type''"
    "AttributeString example_env DW_AT_data_member_location = ''DW_AT_data_member_location''"
    "FormEncodingString example_env DW_FORM_strp = ''DW_FORM_strp''"
    "FormEncodingString example_env DW_FORM_ref4 = ''DW_FORM_ref4''"
    "FormEncodingString example_env DW_FORM_data1 = ''DW_FORM_data1''"
    by (simp_all add: example_env_def example_TagString_def example_AttributeString_def
        example_FormEncodingString_def dwarf_constants)
  have c: "DW_FORM_ref4 \<noteq> DW_FORM_strp" "DW_FORM_data1 \<noteq> DW_FORM_strp"
    "DW_AT_data_member_location \<noteq> DW_AT_encoding"
    by (simp_all add: dwarf_constants)
  have r: "replicate 4 CHR '' '' = ''    ''"
    by code_simp
  have o: "Offset main_resolved 5 = 44" "Offset main_resolved (Suc 0) = 18"
    "AbbrevNumber main_resolved 5 = 5"
    by (simp_all add: main_resolved_def)
  show ?thesis
    by (simp add: memberX_def header_line_def attribute_line_def decoded_value_def
        hasChildren_def getOffset_def getAbbrevNumber_def n c r o main_memberX_numbers)
qed

lemma main_memberX_offset: "getOffset main_resolved memberX < 2 ^ 32"
  by (simp add: getOffset_def memberX_def main_resolved_def)

theorem printDIE_renders_entry_witness:
  "printDIE example_env main_pool main_resolved [] memberX 4 =
   ''    0x0000002c: DW_TAG_member [5]'' @ [LF] @
   ''      DW_AT_name = '' @ [CHR 0x22] @ ''x'' @ [CHR 0x22] @
     '' (strp offset: 0x00000017) [DW_FORM_strp]'' @ [LF] @
   ''      DW_AT_type = {0x00000012} [DW_FORM_ref4]'' @ [LF] @
   ''      DW_AT_data_member_location = 0x0 [DW_FORM_data1]'' @ [LF] \<and>
   getOffset main_resolved memberX < 2 ^ 32 \<and>
   length (format_08x (getOffset main_resolved memberX)) = 8"
  using printDIE_renders_entry [of example_env main_pool main_resolved "[]" memberX 4]
    main_memberX_dump main_memberX_offset
  by (simp only: append_Nil)

text \<open>
  Without the last case the statement fails, on a value that is neither an integer nor an
  entry reference, here with the form \<^verbatim>\<open>DW_FORM_string\<close>: it is not a string-pool
  reference, not an entry reference and not the encoding attribute, and what is written
  for it is not a number in hexadecimal.
\<close>

theorem printDIE_renders_entry_counterexample:
  "\<not> (\<exists>val. printDIE example_env main_pool main_resolved []
            (DIE 0 DW_TAG_member [DIEValue DW_AT_name DW_FORM_string isOther] False []) 0 =
          header_line example_env main_resolved 0
            (DIE 0 DW_TAG_member [DIEValue DW_AT_name DW_FORM_string isOther] False []) @
          ''  DW_AT_name = 0x'' @ format_x_val example_env val @ '' [DW_FORM_string]'' @ [LF])"
proof
  let ?V = "DIEValue DW_AT_name DW_FORM_string isOther"
  let ?die = "DIE 0 DW_TAG_member [?V] False []"
  assume "\<exists>val. printDIE example_env main_pool main_resolved [] ?die 0 =
      header_line example_env main_resolved 0 ?die @
      ''  DW_AT_name = 0x'' @ format_x_val example_env val @ '' [DW_FORM_string]'' @ [LF]"
  then obtain val where e: "printDIE example_env main_pool main_resolved [] ?die 0 =
      header_line example_env main_resolved 0 ?die @
      ''  DW_AT_name = 0x'' @ format_x_val example_env val @ '' [DW_FORM_string]'' @ [LF]"
    by blast
  have "printDIE example_env main_pool main_resolved [] ?die 0 =
      header_line example_env main_resolved 0 ?die @
      attribute_line example_env main_pool main_resolved 0 ?V"
    by (subst printDIE_lines) (simp add: hasChildren_def)
  with e have "attribute_line example_env main_pool main_resolved 0 ?V =
      ''  DW_AT_name = 0x'' @ format_x_val example_env val @ '' [DW_FORM_string]'' @ [LF]"
    by simp
  then show False
    by (simp add: attribute_line_def decoded_value_def example_env_def
        example_AttributeString_def dwarf_constants)
qed

subsection \<open>Out-of-bounds string lookups\<close>

text \<open>
  C6. For every offset greater than or equal to the size of the buffer \<^verbatim>\<open>getStringAt\<close>
  returns the empty string; and when the offset that \<^verbatim>\<open>printDIE\<close> looks up for a
  \<^verbatim>\<open>DW_FORM_strp\<close> value is out of bounds, the round of the loop for this value writes its
  line as ever, with an empty string between the quotes.
\<close>

theorem getStringAt_out_of_bounds:
  "(length (data p) \<le> unat offset \<longrightarrow> getStringAt p offset = []) \<and>
   (length (data p) \<le> unat (ucast val :: 32 word) \<longrightarrow>
      printValue env p st indentStr OS (DIEValue a DW_FORM_strp (isInteger val)) =
      OS @ indentStr @ ''  '' @ AttributeString env a @ '' = '' @ [CHR 0x22, CHR 0x22] @
      '' (strp offset: 0x'' @ format_08x_val env val @ '')'' @
      '' ['' @ FormEncodingString env DW_FORM_strp @ '']'' @ [LF])"
  by (simp add: getStringAt_def printValue_def Let_def)

lemma main_pool_size: "length (data main_pool) = 32"
  by code_simp

theorem getStringAt_out_of_bounds_witness:
  "length (data main_pool) \<le> unat (32 :: 32 word) \<and> getStringAt main_pool 32 = [] \<and>
   length (data main_pool) \<le> unat (ucast (4294967400 :: 64 word) :: 32 word) \<and>
   printValue example_env main_pool unresolved ''  '' []
     (DIEValue DW_AT_name DW_FORM_strp (isInteger 4294967400)) =
   ''    DW_AT_name = '' @ [CHR 0x22, CHR 0x22] @
   '' (strp offset: 0x00000068) [DW_FORM_strp]'' @ [LF]"
proof -
  have h1: "length (data main_pool) \<le> unat (32 :: 32 word)"
    by (simp add: main_pool_size)
  have h2: "length (data main_pool) \<le> unat (ucast (4294967400 :: 64 word) :: 32 word)"
    by (simp add: main_pool_size)
  have e: "format_08x_val example_env 4294967400 = ''00000068''"
    by code_simp
  have n: "AttributeString example_env DW_AT_name = ''DW_AT_name''"
    "FormEncodingString example_env DW_FORM_strp = ''DW_FORM_strp''"
    by (simp_all add: example_env_def example_AttributeString_def example_FormEncodingString_def
        dwarf_constants)
  from getStringAt_out_of_bounds
         [of main_pool 32 4294967400 example_env unresolved "''  ''" "[]" DW_AT_name]
    h1 h2 e n
  show ?thesis by simp
qed


end
